theory Spec2Isabelle
  imports Complex_Main
begin

section \<open>Python errors and the estimator base class\<close>

text \<open>
  Every \<^verbatim>\<open>raise\<close>, failed \<^verbatim>\<open>assert\<close>, missing dictionary key and out-of-range index
  of \<^verbatim>\<open>numpyro/infer/elbo.py\<close> is a value of this type; a function that can raise returns
  \<open>error + 'a\<close> with \<open>Inl\<close> for the exception. \<open>ShapeError\<close> is the exception jax.numpy raises
  when two shapes cannot be broadcast together; \<open>StructuralError\<close> is the model/guide
  mismatch error of the site validation.
\<close>

datatype error =
  ValueError | KeyError | IndexError | AssertionError | NotImplementedError | ShapeError
  | StructuralError

text \<open>
  The argument \<^verbatim>\<open>vectorize_particles\<close> of \<^verbatim>\<open>ELBO.__init__\<close> is dynamically typed: a boolean,
  a callable, or anything else. \<^verbatim>\<open>_assign_vectorize_particles_fn\<close> turns it into the map
  function used over the particles.
\<close>

datatype vectorize_arg = PyTrue | PyFalse | PyCallable nat | PyOther

datatype mapT = apply_vmap | jax_lax_map | user_map nat

record ELBO =
  num_particles :: int
  vectorize_particles :: vectorize_arg
  vectorize_particles_fn :: mapT

definition assign_vectorize_particles_fn :: "vectorize_arg \<Rightarrow> error + mapT" where
  "assign_vectorize_particles_fn v =
     (case v of
        PyCallable f \<Rightarrow> Inr (user_map f)
      | PyTrue \<Rightarrow> Inr apply_vmap
      | PyFalse \<Rightarrow> Inr jax_lax_map
      | PyOther \<Rightarrow> Inl ValueError)"

text \<open>\<^verbatim>\<open>ELBO.__init__(self, num_particles=1, vectorize_particles=True)\<close>; an argument that
  is not supplied is \<open>None\<close> and takes the default of the signature.\<close>

definition ELBO_init :: "int option \<Rightarrow> vectorize_arg option \<Rightarrow> error + ELBO" where
  "ELBO_init num_particles_arg vectorize_particles_arg =
     (let n = (case num_particles_arg of None \<Rightarrow> 1 | Some k \<Rightarrow> k);
          v = (case vectorize_particles_arg of None \<Rightarrow> PyTrue | Some a \<Rightarrow> a)
      in case assign_vectorize_particles_fn v of
           Inl e \<Rightarrow> Inl e
         | Inr f \<Rightarrow> Inr \<lparr>num_particles = n, vectorize_particles = v,
                          vectorize_particles_fn = f\<rparr>)"

subsection \<open>RenyiELBO.__init__\<close>

record RenyiELBO = ELBO +
  alpha :: real

text \<open>\<^verbatim>\<open>RenyiELBO.__init__(self, alpha=0, num_particles=2)\<close>: the check on \<open>alpha\<close>, then
  the base constructor with \<^verbatim>\<open>num_particles=num_particles\<close> only.\<close>

definition RenyiELBO_init :: "real option \<Rightarrow> int option \<Rightarrow> error + RenyiELBO" where
  "RenyiELBO_init alpha_arg num_particles_arg =
     (let a = (case alpha_arg of None \<Rightarrow> 0 | Some x \<Rightarrow> x);
          n = (case num_particles_arg of None \<Rightarrow> 2 | Some k \<Rightarrow> k)
      in if a = 1 then Inl ValueError
         else case ELBO_init (Some n) None of
                Inl e \<Rightarrow> Inl e
              | Inr base \<Rightarrow> Inr (ELBO.extend base \<lparr>alpha = a\<rparr>))"

section \<open>The bipartite partitioner \<^verbatim>\<open>_partition\<close>\<close>

text \<open>
  An \<^verbatim>\<open>OrderedDict\<close> keyed by site name is an association list in insertion order.
  \<^verbatim>\<open>model_sum_deps\<close> is such a dictionary from cost-term names to frozensets of names; a
  frozenset is given by the list of its elements in the order the \<^verbatim>\<open>for\<close> loop visits them.
  \<^verbatim>\<open>sum_vars\<close> is only tested for membership and is a set.
\<close>

type_synonym 'v odict = "(string \<times> 'v) list"

definition od_keys :: "'v odict \<Rightarrow> string set" where
  "od_keys d = fst ` set d"

text \<open>\<^verbatim>\<open>d.pop(k)\<close>: the value stored under \<open>k\<close> and the dictionary without \<open>k\<close>, or KeyError.\<close>

definition od_pop :: "string \<Rightarrow> 'v odict \<Rightarrow> error + ('v \<times> 'v odict)" where
  "od_pop k d =
     (case map_of d k of
        None \<Rightarrow> Inl KeyError
      | Some v \<Rightarrow> Inr (v, filter (\<lambda>kv. fst kv \<noteq> k) d))"

text \<open>\<^verbatim>\<open>d[k].append(x)\<close> (KeyError when \<open>k\<close> is missing) and
  \<^verbatim>\<open>d.setdefault(k, []).append(x)\<close> (a missing key is inserted last).\<close>

definition upd_append :: "string \<Rightarrow> string \<Rightarrow> string list odict \<Rightarrow> string list odict" where
  "upd_append k x d = map (\<lambda>kv. if fst kv = k then (fst kv, snd kv @ [x]) else kv) d"

definition od_append :: "string \<Rightarrow> string \<Rightarrow> string list odict \<Rightarrow> error + string list odict" where
  "od_append k x d = (if k \<in> od_keys d then Inr (upd_append k x d) else Inl KeyError)"

definition od_setdefault_append :: "string \<Rightarrow> string \<Rightarrow> string list odict \<Rightarrow> string list odict" where
  "od_setdefault_append k x d =
     (if k \<in> od_keys d then upd_append k x d else d @ [(k, [x])])"

text \<open>
  The construction of the bipartite graph:
  \<^verbatim>\<open>
  for key, deps in model_sum_deps.items():
      for dim in deps:
          if dim in sum_vars:
              neighbors[key].append(dim)
              neighbors.setdefault(dim, []).append(key)
  \<close>
  \<open>add_edges\<close> is the inner loop for one key, \<open>build_neighbors\<close> the outer loop.
\<close>

fun add_edges :: "string set \<Rightarrow> string \<Rightarrow> string list \<Rightarrow> string list odict \<Rightarrow> error + string list odict" where
  "add_edges sum_vars key [] neighbors = Inr neighbors"
| "add_edges sum_vars key (d # deps) neighbors =
     (if d \<in> sum_vars
      then (case od_append key d neighbors of
              Inl e \<Rightarrow> Inl e
            | Inr n1 \<Rightarrow> add_edges sum_vars key deps (od_setdefault_append d key n1))
      else add_edges sum_vars key deps neighbors)"

fun build_neighbors :: "string set \<Rightarrow> (string \<times> string list) list \<Rightarrow> string list odict \<Rightarrow> error + string list odict" where
  "build_neighbors sum_vars [] neighbors = Inr neighbors"
| "build_neighbors sum_vars ((key, deps) # items) neighbors =
     (case add_edges sum_vars key deps neighbors of
        Inl e \<Rightarrow> Inl e
      | Inr n1 \<Rightarrow> build_neighbors sum_vars items n1)"

text \<open>
  The loop \<^verbatim>\<open>for v in neighbors.pop(v): if v not in component: component[v] = None;
  pending.append(v)\<close> over an adjacency list that has already been popped.
\<close>

fun visit :: "string list \<Rightarrow> string list \<Rightarrow> string list \<Rightarrow> string list \<times> string list" where
  "visit [] component pending = (component, pending)"
| "visit (v # vs) component pending =
     (if v \<notin> set component then visit vs (component @ [v]) (pending @ [v])
      else visit vs component pending)"

lemma od_pop_length: "od_pop k d = Inr (v, d') \<Longrightarrow> length d' < length d"
proof -
  assume a: "od_pop k d = Inr (v, d')"
  then obtain v0 where m: "map_of d k = Some v0" and d': "d' = filter (\<lambda>kv. fst kv \<noteq> k) d"
    by (auto simp: od_pop_def split: option.splits)
  from m have "(k, v0) \<in> set d" by (rule map_of_SomeD)
  then have "length (filter (\<lambda>kv. fst kv \<noteq> k) d) < length d"
    by (intro length_filter_less[of "(k, v0)"]) auto
  then show ?thesis unfolding d' .
qed

text \<open>
  The inner loop \<^verbatim>\<open>while pending: v = pending.pop(); for v in neighbors.pop(v): ...\<close>.
  \<^verbatim>\<open>pending.pop()\<close> takes the last element; a vertex that is no longer in
  \<^verbatim>\<open>neighbors\<close> makes \<^verbatim>\<open>neighbors.pop(v)\<close> raise KeyError. Every iteration removes a
  key from \<^verbatim>\<open>neighbors\<close>, which is why the loop ends.
\<close>

function explore :: "string list odict \<Rightarrow> string list \<Rightarrow> string list \<Rightarrow> error + (string list odict \<times> string list)" where
  "explore neighbors component pending =
     (if pending = [] then Inr (neighbors, component)
      else (case od_pop (last pending) neighbors of
              Inl e \<Rightarrow> Inl e
            | Inr (adj, n1) \<Rightarrow>
                (case visit adj component (butlast pending) of
                   (c1, p1) \<Rightarrow> explore n1 c1 p1)))"
  by pat_completeness auto
termination
  by (relation "measure (\<lambda>(n, c, p). length n)") (auto dest: od_pop_length)

declare explore.simps [simp del]

lemma explore_length:
  "explore n c p = Inr (n', c') \<Longrightarrow> length n' \<le> length n"
proof (induction n c p rule: explore.induct)
  case (1 neighbors component pending)
  show ?case
  proof (cases "pending = []")
    case True
    with "1.prems" show ?thesis by (simp add: explore.simps)
  next
    case False
    with "1.prems" obtain adj n1 where pop: "od_pop (last pending) neighbors = Inr (adj, n1)"
      by (subst (asm) explore.simps) (auto split: sum.splits)
    obtain c1 p1 where v: "visit adj component (butlast pending) = (c1, p1)"
      by (cases "visit adj component (butlast pending)")
    from "1.prems" False pop v have "explore n1 c1 p1 = Inr (n', c')"
      by (subst (asm) explore.simps) simp
    from "1.IH"[OF False pop refl v[symmetric] this] od_pop_length[OF pop]
    show ?thesis by simp
  qed
qed

text \<open>\<^verbatim>\<open>component[v] = None\<close> on an OrderedDict used as an ordered set.\<close>

definition od_add :: "string \<Rightarrow> string list \<Rightarrow> string list" where
  "od_add v component = (if v \<in> set component then component else component @ [v])"

text \<open>
  The outer loop:
  \<^verbatim>\<open>
  components = []
  while neighbors:
      v, pending = neighbors.popitem()
      component = OrderedDict([(v, None)])
      for v in pending:
          component[v] = None
      while pending: ...
      component_factors = frozenset(v for v in component if v not in sum_vars)
      if component_factors:
          component_measures = frozenset(v for v in component if v in sum_vars)
          components.append((component_factors, component_measures))
  return components
  \<close>
  \<^verbatim>\<open>popitem()\<close> removes the item inserted last.
\<close>

function components_loop ::
  "string set \<Rightarrow> string list odict \<Rightarrow> (string set \<times> string set) list
     \<Rightarrow> error + (string set \<times> string set) list" where
  "components_loop sum_vars neighbors components =
     (if neighbors = [] then Inr components
      else (case last neighbors of
              (v, pending) \<Rightarrow>
                (case explore (butlast neighbors) (foldl (\<lambda>c w. od_add w c) [v] pending) pending of
                   Inl e \<Rightarrow> Inl e
                 | Inr (n1, component) \<Rightarrow>
                     (if filter (\<lambda>v. v \<notin> sum_vars) component \<noteq> []
                      then components_loop sum_vars n1
                             (components @ [(set (filter (\<lambda>v. v \<notin> sum_vars) component),
                                             set (filter (\<lambda>v. v \<in> sum_vars) component))])
                      else components_loop sum_vars n1 components))))"
  by pat_completeness auto
termination
  by (relation "measure (\<lambda>(s, n, c). length n)")
     (auto dest!: explore_length explore_length[OF sym] simp flip: length_greater_0_conv)

declare components_loop.simps [simp del]

text \<open>\<^verbatim>\<open>_partition(model_sum_deps, sum_vars)\<close>; the dictionary starts as
  \<^verbatim>\<open>OrderedDict([(t, []) for t in model_sum_deps.keys()])\<close>.\<close>

definition py_partition ::
  "(string \<times> string list) list \<Rightarrow> string set \<Rightarrow> error + (string set \<times> string set) list" where
  "py_partition model_sum_deps sum_vars =
     (case build_neighbors sum_vars model_sum_deps
             (map (\<lambda>t. (t, [])) (remdups (map fst model_sum_deps))) of
        Inl e \<Rightarrow> Inl e
      | Inr neighbors \<Rightarrow> components_loop sum_vars neighbors [])"

subsection \<open>The graph the partition is about\<close>

text \<open>
  \<open>dep_edges\<close> links a cost term to each enumerated variable in its dependency set;
  \<open>dep_graph\<close> is the undirected graph of these links. A pair \<open>(factors, measures)\<close> is a
  connected component of a graph \<open>E\<close> when no edge leaves it, any two of its vertices are
  joined by a path, its factors are not enumerated variables and its measures are.
  \<open>nb_edges\<close> reads the edges off an adjacency dictionary; \<open>agrees\<close> and \<open>binv\<close> are the
  invariants of the two phases of the algorithm.
\<close>

definition agrees :: "string list odict \<Rightarrow> (string \<times> string) set \<Rightarrow> bool" where
  "agrees n E \<longleftrightarrow> (\<forall>(u, adj) \<in> set n. distinct adj \<and> set adj = E `` {u})"

definition component_of :: "(string \<times> string) set \<Rightarrow> string set \<Rightarrow> string set \<times> string set \<Rightarrow> bool" where
  "component_of E sv p \<longleftrightarrow>
     E `` (fst p \<union> snd p) \<subseteq> fst p \<union> snd p \<and>
     (\<forall>x \<in> fst p \<union> snd p. \<forall>y \<in> fst p \<union> snd p. (x, y) \<in> E\<^sup>*) \<and>
     fst p \<inter> sv = {} \<and> snd p \<subseteq> sv"

definition dep_edges :: "(string \<times> string list) list \<Rightarrow> string set \<Rightarrow> (string \<times> string) set" where
  "dep_edges msd sv = {(k, d). \<exists>deps. (k, deps) \<in> set msd \<and> d \<in> set deps \<and> d \<in> sv}"

definition nb_edges :: "string list odict \<Rightarrow> (string \<times> string) set" where
  "nb_edges n = {(u, w). \<exists>adj. (u, adj) \<in> set n \<and> w \<in> set adj}"

definition binv :: "string set \<Rightarrow> string list odict \<Rightarrow> (string \<times> string) set \<Rightarrow> bool" where
  "binv K0 n P \<longleftrightarrow>
     distinct (map fst n) \<and> (\<forall>(u, adj) \<in> set n. distinct adj) \<and>
     nb_edges n = P \<union> P\<inverse> \<and> od_keys n = K0 \<union> snd ` P"

definition dep_graph :: "(string \<times> string list) list \<Rightarrow> string set \<Rightarrow> (string \<times> string) set" where
  "dep_graph msd sv = dep_edges msd sv \<union> (dep_edges msd sv)\<inverse>"

section \<open>Tensors\<close>

text \<open>
  A jax array is its shape together with its entries, read by index tuple. Entries are
  real numbers: rounding of floating-point arithmetic is outside this model. Only the
  entries at index tuples within the shape are meaningful.
\<close>

record tensor =
  shape :: "nat list"
  elem :: "nat list \<Rightarrow> real"

definition ndim :: "tensor \<Rightarrow> nat" where
  "ndim t = length (shape t)"

text \<open>\<^verbatim>\<open>jnp.array(x)\<close> for a Python float \<open>x\<close>: a tensor of shape \<open>()\<close>.\<close>

definition scalar :: "real \<Rightarrow> tensor" where
  "scalar x = \<lparr>shape = [], elem = (\<lambda>idx. x)\<rparr>"

text \<open>Python indexing of a tuple of length \<open>n\<close> by an integer: negative indices count
  from the end, anything outside raises IndexError.\<close>

definition py_index :: "int \<Rightarrow> nat \<Rightarrow> error + nat" where
  "py_index i n =
     (let j = (if i < 0 then i + int n else i)
      in if 0 \<le> j \<and> j < int n then Inr (nat j) else Inl IndexError)"

text \<open>\<^verbatim>\<open>value.sum(axis, keepdims=True)\<close> for an axis already normalised to \<open>0 \<le> k < ndim\<close>.\<close>

definition sum_keepdims :: "nat \<Rightarrow> tensor \<Rightarrow> tensor" where
  "sum_keepdims k t =
     \<lparr>shape = (shape t)[k := 1],
      elem = (\<lambda>idx. \<Sum>j\<leftarrow>[0..<shape t ! k]. elem t (idx[k := j]))\<rparr>"

text \<open>\<^verbatim>\<open>value.squeeze(0)\<close> on a tensor whose first dimension has size 1.\<close>

definition squeeze0 :: "tensor \<Rightarrow> tensor" where
  "squeeze0 t = \<lparr>shape = tl (shape t), elem = (\<lambda>idx. elem t (0 # idx))\<rparr>"

text \<open>
  Broadcasting aligns two shapes at their last dimension; two sizes are compatible when
  they are equal or one of them is 1. \<open>bcast_rev\<close> works on the reversed shapes.
\<close>

fun bcast_rev :: "nat list \<Rightarrow> nat list \<Rightarrow> nat list option" where
  "bcast_rev [] ys = Some ys"
| "bcast_rev (x # xs) [] = Some (x # xs)"
| "bcast_rev (x # xs) (y # ys) =
     (if x = y \<or> y = 1 then map_option ((#) x) (bcast_rev xs ys)
      else if x = 1 then map_option ((#) y) (bcast_rev xs ys)
      else None)"

definition broadcast_shapes :: "nat list \<Rightarrow> nat list \<Rightarrow> nat list option" where
  "broadcast_shapes a b = map_option rev (bcast_rev (rev a) (rev b))"

text \<open>The index into an operand of shape \<open>s\<close> that an index tuple of the broadcast
  result reads: its last \<open>length s\<close> positions, with 0 where the operand has size 1.\<close>

definition bcast_index :: "nat list \<Rightarrow> nat list \<Rightarrow> nat list" where
  "bcast_index s idx =
     map (\<lambda>(d, i). if d = 1 then 0 else i) (zip s (drop (length idx - length s) idx))"

definition tbinop :: "(real \<Rightarrow> real \<Rightarrow> real) \<Rightarrow> tensor \<Rightarrow> tensor \<Rightarrow> error + tensor" where
  "tbinop f a b =
     (case broadcast_shapes (shape a) (shape b) of
        None \<Rightarrow> Inl ShapeError
      | Some s \<Rightarrow>
          Inr \<lparr>shape = s,
               elem = (\<lambda>idx. f (elem a (bcast_index (shape a) idx))
                                (elem b (bcast_index (shape b) idx)))\<rparr>)"

definition tadd :: "tensor \<Rightarrow> tensor \<Rightarrow> error + tensor" where
  "tadd a b = tbinop (+) a b"



text \<open>\<^verbatim>\<open>jnp.sum(x)\<close>: the sum of all entries, over every index tuple of the shape.\<close>

fun indices :: "nat list \<Rightarrow> nat list list" where
  "indices [] = [[]]"
| "indices (d # ds) = concat (map (\<lambda>i. map ((#) i) (indices ds)) [0..<d])"

definition jnp_sum :: "tensor \<Rightarrow> real" where
  "jnp_sum t = (\<Sum>idx\<leftarrow>indices (shape t). elem t idx)"


section \<open>MultiFrameTensor\<close>

text \<open>\<^verbatim>\<open>CondIndepStackFrame\<close> is a named tuple \<^verbatim>\<open>(name, dim, size)\<close>; two frames are equal
  when their three fields are.\<close>

record CondIndepStackFrame =
  frame_name :: string
  frame_dim :: int
  frame_size :: nat

text \<open>
  A \<^verbatim>\<open>MultiFrameTensor\<close> is a dictionary from frozensets of frames to tensors, in insertion
  order. A key is the list of the frames of the frozenset in the order in which
  \<^verbatim>\<open>for f in frames\<close> visits them; two keys are the same key when they have the same elements.
\<close>

type_synonym MultiFrameTensor = "(CondIndepStackFrame list \<times> tensor) list"

text \<open>
  One iteration of \<^verbatim>\<open>add\<close>:
  \<^verbatim>\<open>
  frames = frozenset(f for f in cond_indep_stack)
  assert all(f.dim < 0 and -jnp.ndim(value) <= f.dim for f in frames)
  if frames in self:
      self[frames] = self[frames] + value
  else:
      self[frames] = value
  \<close>
\<close>

fun mft_store :: "CondIndepStackFrame list \<Rightarrow> tensor \<Rightarrow> MultiFrameTensor \<Rightarrow> error + MultiFrameTensor" where
  "mft_store frames v [] = Inr [(frames, v)]"
| "mft_store frames v ((fs, old) # rest) =
     (if set fs = set frames
      then (case tadd old v of Inl e \<Rightarrow> Inl e | Inr s \<Rightarrow> Inr ((fs, s) # rest))
      else (case mft_store frames v rest of
              Inl e \<Rightarrow> Inl e
            | Inr rest' \<Rightarrow> Inr ((fs, old) # rest')))"

definition mft_add1 :: "MultiFrameTensor \<Rightarrow> CondIndepStackFrame list \<times> tensor \<Rightarrow> error + MultiFrameTensor" where
  "mft_add1 self item =
     (case item of
        (cond_indep_stack, v) \<Rightarrow>
          (let frames = remdups cond_indep_stack
           in if list_all (\<lambda>f. frame_dim f < 0 \<and> - int (ndim v) \<le> frame_dim f) frames
              then mft_store frames v self
              else Inl AssertionError))"

fun mft_add :: "MultiFrameTensor \<Rightarrow> (CondIndepStackFrame list \<times> tensor) list \<Rightarrow> error + MultiFrameTensor" where
  "mft_add self [] = Inr self"
| "mft_add self (item # items) =
     (case mft_add1 self item of Inl e \<Rightarrow> Inl e | Inr self' \<Rightarrow> mft_add self' items)"

text \<open>\<^verbatim>\<open>MultiFrameTensor(*items)\<close>: the empty dictionary, then \<^verbatim>\<open>self.add(*items)\<close>.\<close>

definition MultiFrameTensor_init :: "(CondIndepStackFrame list \<times> tensor) list \<Rightarrow> error + MultiFrameTensor" where
  "MultiFrameTensor_init items = mft_add [] items"

text \<open>
  \<^verbatim>\<open>sum_to\<close>, the loop over the frames of one entry:
  \<^verbatim>\<open>
  for f in frames:
      if f not in target_frames and jnp.shape(value)[f.dim] != 1:
          value = value.sum(f.dim, keepdims=True)
  \<close>
\<close>

fun reduce_frames :: "CondIndepStackFrame list \<Rightarrow> CondIndepStackFrame list \<Rightarrow> tensor \<Rightarrow> error + tensor" where
  "reduce_frames target_frames [] v = Inr v"
| "reduce_frames target_frames (f # fs) v =
     (if f \<notin> set target_frames
      then (case py_index (frame_dim f) (ndim v) of
              Inl e \<Rightarrow> Inl e
            | Inr k \<Rightarrow>
                (if shape v ! k \<noteq> 1 then reduce_frames target_frames fs (sum_keepdims k v)
                 else reduce_frames target_frames fs v))
      else reduce_frames target_frames fs v)"

text \<open>\<^verbatim>\<open>while jnp.shape(value) and jnp.shape(value)[0] == 1: value = value.squeeze(0)\<close>\<close>

function squeeze_leading :: "tensor \<Rightarrow> tensor" where
  "squeeze_leading v =
     (if shape v \<noteq> [] \<and> hd (shape v) = 1 then squeeze_leading (squeeze0 v) else v)"
  by pat_completeness auto
termination
  by (relation "measure (\<lambda>v. length (shape v))") (auto simp: squeeze0_def)

declare squeeze_leading.simps [simp del]

text \<open>The loop over the entries, with \<^verbatim>\<open>total\<close> (\<open>None\<close> at first), and \<^verbatim>\<open>sum_to\<close> itself:
  \<^verbatim>\<open>return jnp.array(0.0) if total is None else total\<close>.\<close>

fun sum_to_loop :: "CondIndepStackFrame list \<Rightarrow> MultiFrameTensor \<Rightarrow> tensor option \<Rightarrow> error + tensor option" where
  "sum_to_loop target_frames [] total' = Inr total'"
| "sum_to_loop target_frames ((frames, v) # rest) total' =
     (case reduce_frames target_frames frames v of
        Inl e \<Rightarrow> Inl e
      | Inr v1 \<Rightarrow>
          (case total' of
             None \<Rightarrow> sum_to_loop target_frames rest (Some (squeeze_leading v1))
           | Some t \<Rightarrow>
               (case tadd t (squeeze_leading v1) of
                  Inl e \<Rightarrow> Inl e
                | Inr s \<Rightarrow> sum_to_loop target_frames rest (Some s))))"

definition sum_to :: "MultiFrameTensor \<Rightarrow> CondIndepStackFrame list \<Rightarrow> error + tensor" where
  "sum_to self target_frames =
     (case sum_to_loop target_frames self None of
        Inl e \<Rightarrow> Inl e
      | Inr None \<Rightarrow> Inr (scalar 0)
      | Inr (Some total') \<Rightarrow> Inr total')"

text \<open>The sum \<open>((t + v\<^sub>1) + v\<^sub>2) + \<dots>\<close> as \<^verbatim>\<open>sum_to\<close> forms it, and what \<^verbatim>\<open>sum_to\<close> adds for
  one entry: the entry reduced over its frames, then squeezed.\<close>

fun add_from :: "tensor \<Rightarrow> tensor list \<Rightarrow> error + tensor" where
  "add_from t [] = Inr t"
| "add_from t (v # vs) = (case tadd t v of Inl e \<Rightarrow> Inl e | Inr s \<Rightarrow> add_from s vs)"

definition squeezed_term :: "CondIndepStackFrame list \<Rightarrow> CondIndepStackFrame list \<times> tensor \<Rightarrow> tensor \<Rightarrow> bool" where
  "squeezed_term target_frames entry w \<longleftrightarrow>
     (\<exists>u. reduce_frames target_frames (fst entry) (snd entry) = Inr u \<and> w = squeeze_leading u)"

definition no_leading_one :: "tensor \<Rightarrow> bool" where
  "no_leading_one t \<longleftrightarrow> shape t = [] \<or> hd (shape t) \<noteq> 1"

section \<open>Traces and the external collaborators\<close>

text \<open>
  A site of a trace is a Python dictionary; the fields below are the entries the
  estimators read. \<open>site_type\<close> is \<^verbatim>\<open>site["type"]\<close>, \<open>site_value\<close> is \<^verbatim>\<open>site["value"]\<close>,
  \<open>infer_is_auxiliary\<close> is \<^verbatim>\<open>site["infer"].get("is_auxiliary")\<close>, and \<open>is_observed\<close> is
  \<^verbatim>\<open>site.get("is_observed", False)\<close>. The distribution object \<^verbatim>\<open>site["fn"]\<close> has an abstract
  type \<open>'d\<close>. A trace is an ordered dictionary from site names to sites.
\<close>

record 'd site =
  site_type :: string
  site_value :: tensor
  fn :: 'd
  is_observed :: bool
  scale :: "tensor option"
  intermediates :: "tensor list"
  log_prob :: tensor
  cond_indep_stack :: "CondIndepStackFrame list"
  infer_is_auxiliary :: bool

type_synonym 'd trace = "'d site odict"

text \<open>A jax PRNG key is only handed on to the collaborators; it is an opaque number.\<close>

type_synonym prng_key = nat

text \<open>Dictionaries: \<^verbatim>\<open>d.get(k, default)\<close>, \<^verbatim>\<open>d[k] = v\<close> and \<^verbatim>\<open>d.update(e)\<close>.\<close>

definition dict_get :: "'v odict \<Rightarrow> string \<Rightarrow> 'v \<Rightarrow> 'v" where
  "dict_get d k default_value = (case map_of d k of None \<Rightarrow> default_value | Some v \<Rightarrow> v)"

definition dict_set :: "string \<Rightarrow> 'v \<Rightarrow> 'v odict \<Rightarrow> 'v odict" where
  "dict_set k v d =
     (if k \<in> od_keys d then map (\<lambda>kv. if fst kv = k then (k, v) else kv) d else d @ [(k, v)])"

definition dict_update :: "'v odict \<Rightarrow> 'v odict \<Rightarrow> 'v odict" where
  "dict_update d e = foldl (\<lambda>acc kv. dict_set (fst kv) (snd kv) acc) d e"

text \<open>
  The estimators reach the model and the guide only through the effect handlers and
  through helpers of \<^verbatim>\<open>numpyro.infer.util\<close>, \<^verbatim>\<open>numpyro.util\<close> and \<^verbatim>\<open>numpyro.distributions\<close>,
  none of which is part of \<^verbatim>\<open>elbo.py\<close>. They are parameters of the embedding, for a fixed
  model, guide and argument list:
  \<^item> \<open>random_split2 k\<close> is \<^verbatim>\<open>random.split(k)\<close> unpacked into two keys, \<open>random_split k n\<close> is
    \<^verbatim>\<open>random.split(k, n)\<close>;
  \<^item> \<open>guide_log_probs guide_seed param_map\<close> is
    \<^verbatim>\<open>compute_log_probs(seed(guide, guide_seed), args, kwargs, param_map)\<close>, the summed
    log-density of every sample site together with the trace;
  \<^item> \<open>model_log_probs model_seed guide_trace params\<close> is
    \<^verbatim>\<open>compute_log_probs(replay(seed(model, model_seed), guide_trace), args, kwargs, params)\<close>;
  \<^item> \<open>vmap_model_log_probs seeds latents plates params\<close> is
    \<^verbatim>\<open>vmap(compute_model_log_probs)(seeds, latents)\<close>: for every site the log-densities of
    the guide samples, stacked;
  \<^item> \<open>guide_trace_of guide_seed param_map\<close> and \<open>model_trace_of model_seed guide_trace params\<close>
    are the two \<^verbatim>\<open>trace(...).get_trace(*args, **kwargs)\<close> calls of the mean-field estimator;
  \<^item> \<open>importance_trace model_seed guide_seed param_map\<close> is \<^verbatim>\<open>get_importance_trace\<close>;
  \<^item> \<open>nonreparam_deps latents\<close> is \<^verbatim>\<open>get_nonreparam_deps\<close>: for every site name the list
    of the names in its dependency frozenset;
  \<^item> \<open>check_model_guide_match\<close> and \<open>validate_model\<close> return the exception they raise, if any;
  \<^item> \<open>kl_divergence q p\<close> returns the divergence or the exception it raises;
  \<^item> \<open>dist_log_prob d v i\<close> is \<^verbatim>\<open>d.log_prob(v, i)\<close>, or \<^verbatim>\<open>d.log_prob(v)\<close> when \<open>i\<close> is empty;
  \<^item> \<open>scale_and_mask\<close> and \<open>has_rsample\<close> are as named.
  A collaborator that runs user code may raise; its result is then \<open>Inl\<close> of the exception.
\<close>

record 'd handlers =
  random_split2 :: "prng_key \<Rightarrow> prng_key \<times> prng_key"
  random_split :: "prng_key \<Rightarrow> int \<Rightarrow> prng_key list"
  guide_log_probs :: "prng_key \<Rightarrow> tensor odict \<Rightarrow> error + (real odict \<times> 'd trace)"
  model_log_probs :: "prng_key \<Rightarrow> 'd trace \<Rightarrow> tensor odict \<Rightarrow> error + (real odict \<times> 'd trace)"
  vmap_model_log_probs ::
    "prng_key list \<Rightarrow> tensor odict \<Rightarrow> tensor odict \<Rightarrow> tensor odict \<Rightarrow> error + (real list) odict"
  guide_trace_of :: "prng_key \<Rightarrow> tensor odict \<Rightarrow> error + 'd trace"
  model_trace_of :: "prng_key \<Rightarrow> 'd trace \<Rightarrow> tensor odict \<Rightarrow> error + 'd trace"
  importance_trace :: "prng_key \<Rightarrow> prng_key \<Rightarrow> tensor odict \<Rightarrow> error + ('d trace \<times> 'd trace)"
  nonreparam_deps :: "tensor odict \<Rightarrow> error + ((string list) odict \<times> (string list) odict)"
  check_model_guide_match :: "'d trace \<Rightarrow> 'd trace \<Rightarrow> error option"
  validate_model :: "string \<Rightarrow> 'd trace \<Rightarrow> error option"
  kl_divergence :: "'d \<Rightarrow> 'd \<Rightarrow> error + tensor"
  dist_log_prob :: "'d \<Rightarrow> tensor \<Rightarrow> tensor list \<Rightarrow> tensor"
  scale_and_mask :: "tensor \<Rightarrow> tensor option \<Rightarrow> tensor"
  has_rsample :: "'d \<Rightarrow> bool"

section \<open>Trace\_ELBO\<close>

text \<open>
  \<^verbatim>\<open>LossT\<close> is a scalar array or a dictionary of scalar arrays keyed by site name. A warning
  issued with \<^verbatim>\<open>warnings.warn\<close> is recorded in a list that is returned beside the result.
\<close>

datatype LossT = Scalar real | PerSite "real odict"

datatype warning = MutableStateIgnored | MeanFieldOrder

record LossWithMutableState =
  loss :: LossT
  mutable_state :: "tensor odict option"

record Trace_ELBO = ELBO +
  multi_sample_guide :: bool
  sum_sites :: bool

text \<open>\<^verbatim>\<open>{name: site["value"] for name, site in trace.items() if site["type"] == kind}\<close>\<close>

definition sites_of_type :: "string \<Rightarrow> 'd trace \<Rightarrow> tensor odict" where
  "sites_of_type kind tr =
     map (\<lambda>ns. (fst ns, site_value (snd ns))) (filter (\<lambda>ns. site_type (snd ns) = kind) tr)"

text \<open>The guide samples handed to the vectorised model:
  \<^verbatim>\<open>(site["type"] == "sample" and site["value"].size > 0) or (site["type"] == "deterministic")\<close>\<close>

definition guide_latents :: "'d trace \<Rightarrow> tensor odict" where
  "guide_latents tr =
     map (\<lambda>ns. (fst ns, site_value (snd ns)))
       (filter (\<lambda>ns. (site_type (snd ns) = ''sample'' \<and> prod_list (shape (site_value (snd ns))) > 0)
                      \<or> site_type (snd ns) = ''deterministic'') tr)"

text \<open>
  \<^verbatim>\<open>
  num_guide_samples = None
  for site in guide_trace.values():
      if site["type"] == "sample":
          num_guide_samples = site["value"].shape[0]
          break
  if num_guide_samples is None:
      raise ValueError("guide is missing `sample` sites.")
  \<close>
\<close>

definition num_guide_samples :: "'d trace \<Rightarrow> error + nat" where
  "num_guide_samples tr =
     (case filter (\<lambda>ns. site_type (snd ns) = ''sample'') tr of
        [] \<Rightarrow> Inl ValueError
      | ns # _ \<Rightarrow> (case shape (site_value (snd ns)) of [] \<Rightarrow> Inl IndexError | d # _ \<Rightarrow> Inr d))"

text \<open>
  Lines 215 to 270 of \<^verbatim>\<open>single_particle_elbo\<close>: the mutable sites of the guide go into the
  parameters, then the model is run, once per guide sample in the multi-sample mode and
  replayed against the guide trace otherwise. The result is \<^verbatim>\<open>model_log_probs\<close> and
  \<^verbatim>\<open>mutable_params\<close>.
\<close>

definition Trace_model_step ::
  "'a Trace_ELBO_scheme \<Rightarrow> 'd handlers \<Rightarrow> tensor odict \<Rightarrow> prng_key \<Rightarrow> 'd trace
     \<Rightarrow> error + (real odict \<times> tensor odict)" where
  "Trace_model_step self h param_map model_seed guide_trace =
     (let mutable_params = sites_of_type ''mutable'' guide_trace;
          params = dict_update param_map mutable_params
      in if multi_sample_guide self
         then (case num_guide_samples guide_trace of
                 Inl e \<Rightarrow> Inl e
               | Inr n \<Rightarrow>
                   (case vmap_model_log_probs h (random_split h model_seed (int n))
                           (guide_latents guide_trace) (sites_of_type ''plate'' guide_trace) params of
                      Inl e \<Rightarrow> Inl e
                    | Inr stacked \<Rightarrow>
                        Inr (map (\<lambda>nx. (fst nx, sum_list (snd nx))) stacked, mutable_params)))
         else (case model_log_probs h model_seed guide_trace params of
                 Inl e \<Rightarrow> Inl e
               | Inr (mlp, model_trace) \<Rightarrow>
                   (case check_model_guide_match h model_trace guide_trace of
                      Some e \<Rightarrow> Inl e
                    | None \<Rightarrow>
                        (case validate_model h ''loose'' model_trace of
                           Some e \<Rightarrow> Inl e
                         | None \<Rightarrow>
                             Inr (mlp, dict_update mutable_params
                                         (sites_of_type ''mutable'' model_trace))))))"

text \<open>
  Lines 272 to 285:
  \<^verbatim>\<open>
  union = set(model_log_probs).union(guide_log_probs)
  _elbo_particle = {
      name: model_log_probs.get(name, jnp.array(0.0)) - guide_log_probs.get(name, jnp.array(0.0))
      for name in union
  }
  if self.sum_sites:
      elbo_particle = sum(_elbo_particle.values(), start=jnp.array(0.0))
  else:
      elbo_particle = _elbo_particle
  \<close>
  Python does not fix the order in which a set is visited; \<open>union_names\<close> is one
  enumeration of the union.
\<close>

definition union_names :: "real odict \<Rightarrow> real odict \<Rightarrow> string list" where
  "union_names model_lp guide_lp = remdups (map fst model_lp @ map fst guide_lp)"

definition elbo_terms :: "real odict \<Rightarrow> real odict \<Rightarrow> real odict" where
  "elbo_terms model_lp guide_lp =
     map (\<lambda>name. (name, dict_get model_lp name 0 - dict_get guide_lp name 0))
       (union_names model_lp guide_lp)"

definition sum_values :: "real odict \<Rightarrow> real" where
  "sum_values d = foldl (+) 0 (map snd d)"

definition elbo_particle_of :: "bool \<Rightarrow> real odict \<Rightarrow> real odict \<Rightarrow> LossT" where
  "elbo_particle_of sum_sites_flag model_lp guide_lp =
     (if sum_sites_flag then Scalar (sum_values (elbo_terms model_lp guide_lp))
      else PerSite (elbo_terms model_lp guide_lp))"

text \<open>
  Lines 287 to 293, the same in both estimators with mutable state:
  \<^verbatim>\<open>
  if mutable_params:
      if self.num_particles == 1:
          return elbo_particle, mutable_params
      warnings.warn("mutable state is currently ignored when num_particles > 1.")
  return elbo_particle, None
  \<close>
\<close>

definition particle_return ::
  "int \<Rightarrow> LossT \<Rightarrow> tensor odict \<Rightarrow> LossT \<times> tensor odict option \<times> warning list" where
  "particle_return n elbo_particle mutable_params =
     (if mutable_params \<noteq> []
      then (if n = 1 then (elbo_particle, Some mutable_params, [])
            else (elbo_particle, None, [MutableStateIgnored]))
      else (elbo_particle, None, []))"

text \<open>Everything of \<^verbatim>\<open>single_particle_elbo\<close> before line 287: \<^verbatim>\<open>elbo_particle\<close> and
  \<^verbatim>\<open>mutable_params\<close>.\<close>

definition Trace_particle_core ::
  "'a Trace_ELBO_scheme \<Rightarrow> 'd handlers \<Rightarrow> tensor odict \<Rightarrow> prng_key \<Rightarrow> error + (LossT \<times> tensor odict)" where
  "Trace_particle_core self h param_map rng_key =
     (case random_split2 h rng_key of
        (model_seed, guide_seed) \<Rightarrow>
          (case guide_log_probs h guide_seed param_map of
             Inl e \<Rightarrow> Inl e
           | Inr (guide_lp, guide_trace) \<Rightarrow>
               (case Trace_model_step self h param_map model_seed guide_trace of
                  Inl e \<Rightarrow> Inl e
                | Inr (model_lp, mutable_params) \<Rightarrow>
                    Inr (elbo_particle_of (sum_sites self) model_lp guide_lp, mutable_params))))"

definition Trace_single_particle_elbo ::
  "'a Trace_ELBO_scheme \<Rightarrow> 'd handlers \<Rightarrow> tensor odict \<Rightarrow> prng_key
     \<Rightarrow> error + (LossT \<times> tensor odict option \<times> warning list)" where
  "Trace_single_particle_elbo self h param_map rng_key =
     (case Trace_particle_core self h param_map rng_key of
        Inl e \<Rightarrow> Inl e
      | Inr (elbo_particle, mutable_params) \<Rightarrow>
          Inr (particle_return (num_particles self) elbo_particle mutable_params))"

subsection \<open>Particles\<close>

text \<open>
  \<^verbatim>\<open>vectorize_particles_fn(single_particle_elbo, rng_keys)\<close> maps the function over the keys
  and stacks the results leaf by leaf; the first particle that raises ends the call. The
  stacked result is kept as the list of the particles' results. jax traces the function
  once, so all particles return the same structure: the structure of the stacked result is
  that of the first particle, and \<^verbatim>\<open>None\<close>, a tree without leaves, stacks to \<^verbatim>\<open>None\<close>.
\<close>

fun map_particles :: "(prng_key \<Rightarrow> error + 'a) \<Rightarrow> prng_key list \<Rightarrow> error + 'a list" where
  "map_particles f [] = Inr []"
| "map_particles f (k # ks) =
     (case f k of
        Inl e \<Rightarrow> Inl e
      | Inr r \<Rightarrow> (case map_particles f ks of Inl e \<Rightarrow> Inl e | Inr rs \<Rightarrow> Inr (r # rs)))"

definition tree_negative :: "LossT \<Rightarrow> LossT" where
  "tree_negative l =
     (case l of Scalar x \<Rightarrow> Scalar (- x) | PerSite d \<Rightarrow> PerSite (map (\<lambda>nx. (fst nx, - snd nx)) d))"

definition neg_mean :: "real list \<Rightarrow> real" where
  "neg_mean xs = - (sum_list xs / real (length xs))"

fun scalar_leaf :: "LossT \<Rightarrow> real" where
  "scalar_leaf (Scalar x) = x"
| "scalar_leaf (PerSite d) = 0"

fun site_leaf :: "string \<Rightarrow> LossT \<Rightarrow> real" where
  "site_leaf name (PerSite d) = dict_get d name 0"
| "site_leaf name (Scalar x) = x"

text \<open>\<^verbatim>\<open>jax.tree.map(lambda x: -jnp.mean(x), elbos)\<close> on the stacked losses.\<close>

definition tree_neg_mean :: "LossT list \<Rightarrow> LossT" where
  "tree_neg_mean ls =
     (case ls of
        [] \<Rightarrow> Scalar (neg_mean [])
      | Scalar x # _ \<Rightarrow> Scalar (neg_mean (map scalar_leaf ls))
      | PerSite d # _ \<Rightarrow>
          PerSite (map (\<lambda>nx. (fst nx, neg_mean (map (site_leaf (fst nx)) ls))) d))"

definition tstack :: "tensor list \<Rightarrow> tensor" where
  "tstack ts =
     \<lparr>shape = length ts # (case ts of [] \<Rightarrow> [] | t # _ \<Rightarrow> shape t),
      elem = (\<lambda>idx. case idx of [] \<Rightarrow> 0 | i # rest \<Rightarrow> elem (ts ! i) rest)\<rparr>"

definition stack_mutable_state :: "tensor odict option list \<Rightarrow> tensor odict option" where
  "stack_mutable_state ms =
     (case filter (\<lambda>m. m \<noteq> None) ms of
        [] \<Rightarrow> None
      | m # _ \<Rightarrow>
          Some (map (\<lambda>nv. (fst nv, tstack (map (\<lambda>m'. dict_get (the m') (fst nv) (snd nv))
                                                (filter (\<lambda>m. m \<noteq> None) ms))))
                    (the m)))"

text \<open>
  \<^verbatim>\<open>Trace_ELBO.loss_with_mutable_state\<close>, lines 297 to 311; the warnings of the call come
  last.
\<close>

definition Trace_loss_with_mutable_state ::
  "'a Trace_ELBO_scheme \<Rightarrow> 'd handlers \<Rightarrow> tensor odict \<Rightarrow> prng_key
     \<Rightarrow> error + (LossWithMutableState \<times> warning list)" where
  "Trace_loss_with_mutable_state self h param_map rng_key =
     (if num_particles self = 1
      then (case Trace_single_particle_elbo self h param_map rng_key of
              Inl e \<Rightarrow> Inl e
            | Inr (elbo, ms, ws) \<Rightarrow>
                Inr (\<lparr>loss = tree_negative elbo, mutable_state = ms\<rparr>, ws))
      else (case map_particles (Trace_single_particle_elbo self h param_map)
                   (random_split h rng_key (num_particles self)) of
              Inl e \<Rightarrow> Inl e
            | Inr rs \<Rightarrow>
                Inr (\<lparr>loss = tree_neg_mean (map fst rs),
                      mutable_state = stack_mutable_state (map (\<lambda>r. fst (snd r)) rs)\<rparr>,
                     concat (map (\<lambda>r. snd (snd r)) rs))))"

text \<open>\<^verbatim>\<open>ELBO.loss\<close>: the \<^verbatim>\<open>"loss"\<close> entry of \<^verbatim>\<open>loss_with_mutable_state\<close>.\<close>

definition Trace_loss ::
  "'a Trace_ELBO_scheme \<Rightarrow> 'd handlers \<Rightarrow> tensor odict \<Rightarrow> prng_key \<Rightarrow> error + LossT" where
  "Trace_loss self h param_map rng_key =
     map_sum id (\<lambda>r. loss (fst r)) (Trace_loss_with_mutable_state self h param_map rng_key)"

section \<open>TraceMeanField\_ELBO\<close>

record TraceMeanField_ELBO = ELBO +
  sum_sites_mf :: bool

text \<open>
  \<^verbatim>\<open>_get_log_prob_sum(site)\<close>: the log-density of the site's value, scaled and masked, summed.
\<close>

definition get_log_prob_sum :: "'d handlers \<Rightarrow> 'd site \<Rightarrow> real" where
  "get_log_prob_sum h site =
     jnp_sum (scale_and_mask h
                (dist_log_prob h (fn site) (site_value site) (intermediates site)) (scale site))"

text \<open>
  \<^verbatim>\<open>_check_mean_field_requirement\<close>: the sample sites the two traces share, in the order of
  each trace; the assertion that they are the same set, and the warning when the orders
  differ.
\<close>

definition check_mean_field_requirement :: "'d trace \<Rightarrow> 'd trace \<Rightarrow> error + warning list" where
  "check_mean_field_requirement model_trace guide_trace =
     (let model_sites = map fst (filter (\<lambda>ns. site_type (snd ns) = ''sample''
                                            \<and> fst ns \<in> od_keys guide_trace) model_trace);
          guide_sites = map fst (filter (\<lambda>ns. site_type (snd ns) = ''sample''
                                            \<and> fst ns \<in> od_keys model_trace) guide_trace)
      in if set model_sites \<noteq> set guide_sites then Inl AssertionError
         else if model_sites \<noteq> guide_sites then Inr [MeanFieldOrder]
         else Inr [])"

text \<open>
  The contribution of one model sample site, lines 428 to 439:
  \<^verbatim>\<open>
  if model_site["is_observed"]:
      _elbo_particle[name] = _get_log_prob_sum(model_site)
  else:
      guide_site = guide_trace[name]
      try:
          kl_qp = kl_divergence(guide_site["fn"], model_site["fn"])
          kl_qp = scale_and_mask(kl_qp, scale=guide_site["scale"])
          _elbo_particle[name] = -jnp.sum(kl_qp)
      except NotImplementedError:
          _elbo_particle[name] = _get_log_prob_sum(model_site) - _get_log_prob_sum(guide_site)
  \<close>
  An exception of \<^verbatim>\<open>kl_divergence\<close> other than NotImplementedError is not caught.
\<close>

definition model_site_term :: "'d handlers \<Rightarrow> 'd trace \<Rightarrow> string \<Rightarrow> 'd site \<Rightarrow> error + real" where
  "model_site_term h guide_trace name model_site =
     (if is_observed model_site then Inr (get_log_prob_sum h model_site)
      else (case map_of guide_trace name of
              None \<Rightarrow> Inl KeyError
            | Some guide_site \<Rightarrow>
                (case kl_divergence h (fn guide_site) (fn model_site) of
                   Inr kl_qp \<Rightarrow> Inr (- jnp_sum (scale_and_mask h kl_qp (scale guide_site)))
                 | Inl e \<Rightarrow>
                     (if e = NotImplementedError
                      then Inr (get_log_prob_sum h model_site - get_log_prob_sum h guide_site)
                      else Inl e))))"

text \<open>The loop over the model trace, lines 425 to 439, and the loop over the guide trace
  for the auxiliary sites, lines 442 to 445.\<close>

fun model_terms :: "'d handlers \<Rightarrow> 'd trace \<Rightarrow> 'd trace \<Rightarrow> real odict \<Rightarrow> error + real odict" where
  "model_terms h guide_trace [] elbo_particle = Inr elbo_particle"
| "model_terms h guide_trace ((name, model_site) # rest) elbo_particle =
     (if site_type model_site = ''sample''
      then (case model_site_term h guide_trace name model_site of
              Inl e \<Rightarrow> Inl e
            | Inr x \<Rightarrow> model_terms h guide_trace rest (dict_set name x elbo_particle))
      else model_terms h guide_trace rest elbo_particle)"

fun auxiliary_terms :: "'d handlers \<Rightarrow> 'd trace \<Rightarrow> 'd trace \<Rightarrow> real odict \<Rightarrow> error + real odict" where
  "auxiliary_terms h model_trace [] elbo_particle = Inr elbo_particle"
| "auxiliary_terms h model_trace ((name, site) # rest) elbo_particle =
     (if site_type site = ''sample'' \<and> name \<notin> od_keys model_trace
      then (if infer_is_auxiliary site \<or> is_observed site
            then auxiliary_terms h model_trace rest
                   (dict_set name (- get_log_prob_sum h site) elbo_particle)
            else Inl AssertionError)
      else auxiliary_terms h model_trace rest elbo_particle)"

text \<open>Everything of \<^verbatim>\<open>single_particle_elbo\<close> before line 453: \<^verbatim>\<open>elbo_particle\<close>,
  \<^verbatim>\<open>mutable_params\<close> and the warnings so far.\<close>

definition MeanField_particle_core ::
  "'a TraceMeanField_ELBO_scheme \<Rightarrow> 'd handlers \<Rightarrow> tensor odict \<Rightarrow> prng_key
     \<Rightarrow> error + (LossT \<times> tensor odict \<times> warning list)" where
  "MeanField_particle_core self h param_map rng_key =
     (case random_split2 h rng_key of
        (model_seed, guide_seed) \<Rightarrow>
          (case guide_trace_of h guide_seed param_map of
             Inl e \<Rightarrow> Inl e
           | Inr guide_trace \<Rightarrow>
               (let mutable_guide = sites_of_type ''mutable'' guide_trace;
                    params = dict_update param_map mutable_guide
                in case model_trace_of h model_seed guide_trace params of
                     Inl e \<Rightarrow> Inl e
                   | Inr model_trace \<Rightarrow>
                       (let mutable_params =
                              dict_update mutable_guide (sites_of_type ''mutable'' model_trace)
                        in case check_model_guide_match h model_trace guide_trace of
                             Some e \<Rightarrow> Inl e
                           | None \<Rightarrow>
                               (case validate_model h ''loose'' model_trace of
                                  Some e \<Rightarrow> Inl e
                                | None \<Rightarrow>
                                    (case check_mean_field_requirement model_trace guide_trace of
                                       Inl e \<Rightarrow> Inl e
                                     | Inr ws \<Rightarrow>
                                         (case model_terms h guide_trace model_trace [] of
                                            Inl e \<Rightarrow> Inl e
                                          | Inr ep1 \<Rightarrow>
                                              (case auxiliary_terms h model_trace guide_trace ep1 of
                                                 Inl e \<Rightarrow> Inl e
                                               | Inr ep2 \<Rightarrow>
                                                   Inr (if sum_sites_mf self
                                                        then Scalar (sum_values ep2)
                                                        else PerSite ep2,
                                                        mutable_params, ws)))))))))"

definition MeanField_single_particle_elbo ::
  "'a TraceMeanField_ELBO_scheme \<Rightarrow> 'd handlers \<Rightarrow> tensor odict \<Rightarrow> prng_key
     \<Rightarrow> error + (LossT \<times> tensor odict option \<times> warning list)" where
  "MeanField_single_particle_elbo self h param_map rng_key =
     (case MeanField_particle_core self h param_map rng_key of
        Inl e \<Rightarrow> Inl e
      | Inr (elbo_particle, mutable_params, ws) \<Rightarrow>
          (case particle_return (num_particles self) elbo_particle mutable_params of
             (elbo, ms, ws') \<Rightarrow> Inr (elbo, ms, ws @ ws')))"

text \<open>\<^verbatim>\<open>TraceMeanField_ELBO.loss_with_mutable_state\<close>, lines 461 to 475.\<close>

definition MeanField_loss_with_mutable_state ::
  "'a TraceMeanField_ELBO_scheme \<Rightarrow> 'd handlers \<Rightarrow> tensor odict \<Rightarrow> prng_key
     \<Rightarrow> error + (LossWithMutableState \<times> warning list)" where
  "MeanField_loss_with_mutable_state self h param_map rng_key =
     (if num_particles self = 1
      then (case MeanField_single_particle_elbo self h param_map rng_key of
              Inl e \<Rightarrow> Inl e
            | Inr (elbo, ms, ws) \<Rightarrow>
                Inr (\<lparr>loss = tree_negative elbo, mutable_state = ms\<rparr>, ws))
      else (case map_particles (MeanField_single_particle_elbo self h param_map)
                   (random_split h rng_key (num_particles self)) of
              Inl e \<Rightarrow> Inl e
            | Inr rs \<Rightarrow>
                Inr (\<lparr>loss = tree_neg_mean (map fst rs),
                      mutable_state = stack_mutable_state (map (\<lambda>r. fst (snd r)) rs)\<rparr>,
                     concat (map (\<lambda>r. snd (snd r)) rs))))"

section \<open>TraceGraph\_ELBO\<close>











section \<open>Specification-side definitions\<close>

text \<open>
  Modelled from the spec: \<^verbatim>\<open>check_model_guide_match\<close> is imported from \<^verbatim>\<open>numpyro.util\<close>, which
  is not among the source files. The spec describes it: ``Validate that every non-observed
  model sample site has a corresponding guide site and vice versa (raise a structural
  error otherwise --- model/guide mismatch)''. A corresponding site is a site of the same
  name in the other trace.
\<close>

definition check_model_guide_match_spec :: "'d trace \<Rightarrow> 'd trace \<Rightarrow> error option" where
  "check_model_guide_match_spec model_trace guide_trace =
     (if (\<exists>ns \<in> set model_trace. site_type (snd ns) = ''sample'' \<and> \<not> is_observed (snd ns)
                                \<and> fst ns \<notin> od_keys guide_trace)
         \<or> (\<exists>ns \<in> set guide_trace. site_type (snd ns) = ''sample'' \<and> \<not> is_observed (snd ns)
                                  \<and> fst ns \<notin> od_keys model_trace)
      then Some StructuralError else None)"


subsection \<open>A small model and guide\<close>

text \<open>
  A concrete instance on which the theorems below are exercised: a guide with a latent
  site \<open>z\<close> and a mutable site \<open>m\<close>, a model with the latent site \<open>z\<close>, an observed site \<open>x\<close> and
  the mutable site \<open>m\<close>. Distributions are numbered; the analytic divergence is available
  only against distribution 0.
\<close>

definition demo_site :: "string \<Rightarrow> bool \<Rightarrow> real \<Rightarrow> nat \<Rightarrow> nat site" where
  "demo_site kind observed lp d =
     \<lparr>site_type = kind, site_value = scalar 1, fn = d, is_observed = observed, scale = None,
      intermediates = [], log_prob = scalar lp, cond_indep_stack = [],
      infer_is_auxiliary = False\<rparr>"

definition demo_guide_trace :: "nat trace" where
  "demo_guide_trace =
     [(''z'', demo_site ''sample'' False (-1) 1), (''m'', demo_site ''mutable'' False 0 9)]"

definition demo_model_trace :: "nat trace" where
  "demo_model_trace =
     [(''z'', demo_site ''sample'' False (-2) 0), (''x'', demo_site ''sample'' True (-3) 2),
      (''m'', demo_site ''mutable'' False 0 9)]"

definition demo_handlers :: "nat handlers" where
  "demo_handlers =
     \<lparr>random_split2 = (\<lambda>k. (2 * k, 2 * k + 1)),
      random_split = (\<lambda>k n. map (\<lambda>i. k + 1 + i) [0..<nat n]),
      guide_log_probs = (\<lambda>k pm. Inr ([(''z'', -1)], demo_guide_trace)),
      model_log_probs = (\<lambda>k gt pm. Inr ([(''z'', -2), (''x'', -3)], demo_model_trace)),
      vmap_model_log_probs = (\<lambda>ks l p pm. Inr [(''z'', map (\<lambda>k. -2) ks), (''x'', map (\<lambda>k. -3) ks)]),
      guide_trace_of = (\<lambda>k pm. Inr demo_guide_trace),
      model_trace_of = (\<lambda>k gt pm. Inr demo_model_trace),
      importance_trace = (\<lambda>mk gk pm. Inr (demo_model_trace, demo_guide_trace)),
      nonreparam_deps = (\<lambda>l. Inr ([(''z'', [''z'']), (''x'', [''z''])], [(''z'', [])])),
      check_model_guide_match = check_model_guide_match_spec,
      validate_model = (\<lambda>mode tr. None),
      kl_divergence = (\<lambda>q p. if p = 0 then Inr (scalar 5) else Inl NotImplementedError),
      dist_log_prob = (\<lambda>d v i. scalar (- real d)),
      scale_and_mask = (\<lambda>t s. t),
      has_rsample = (\<lambda>d. False)\<rparr>"

text \<open>The same guide with a further latent site \<open>w\<close> that the model does not have.\<close>

definition demo_guide_trace_extra :: "nat trace" where
  "demo_guide_trace_extra = demo_guide_trace @ [(''w'', demo_site ''sample'' False (-4) 3)]"

definition demo_handlers_extra :: "nat handlers" where
  "demo_handlers_extra =
     demo_handlers\<lparr>guide_log_probs := (\<lambda>k pm. Inr ([(''z'', -1), (''w'', -4)], demo_guide_trace_extra))\<rparr>"

definition demo_trace_elbo :: "int \<Rightarrow> bool \<Rightarrow> Trace_ELBO" where
  "demo_trace_elbo n sum_sites_flag =
     \<lparr>num_particles = n, vectorize_particles = PyTrue, vectorize_particles_fn = apply_vmap,
      multi_sample_guide = False, sum_sites = sum_sites_flag\<rparr>"

definition demo_meanfield_elbo :: "int \<Rightarrow> TraceMeanField_ELBO" where
  "demo_meanfield_elbo n =
     \<lparr>num_particles = n, vectorize_particles = PyTrue, vectorize_particles_fn = apply_vmap,
      sum_sites_mf = False\<rparr>"


text \<open>For the mean-field estimator: a further latent site \<open>y\<close> whose pair of distributions
  has no analytic divergence.\<close>

definition demo_guide_trace_mf :: "nat trace" where
  "demo_guide_trace_mf =
     [(''z'', demo_site ''sample'' False (-1) 1), (''y'', demo_site ''sample'' False (-1) 5),
      (''m'', demo_site ''mutable'' False 0 9)]"

definition demo_model_trace_mf :: "nat trace" where
  "demo_model_trace_mf =
     [(''z'', demo_site ''sample'' False (-2) 0), (''y'', demo_site ''sample'' False (-2) 4),
      (''x'', demo_site ''sample'' True (-3) 2), (''m'', demo_site ''mutable'' False 0 9)]"

definition demo_handlers_mf :: "nat handlers" where
  "demo_handlers_mf =
     demo_handlers\<lparr>guide_trace_of := (\<lambda>k pm. Inr demo_guide_trace_mf),
                   model_trace_of := (\<lambda>k gt pm. Inr demo_model_trace_mf)\<rparr>"

section \<open>Properties\<close>

text \<open>
  C6. Constructing a RenyiELBO with alpha equal to 1 raises the configuration error
  (ValueError), whatever num_particles is; for every other alpha (the default 0 included)
  construction succeeds and stores alpha; and when num_particles is not supplied the
  constructed estimator has num_particles equal to 2.
\<close>

theorem RenyiELBO_init_alpha:
  "RenyiELBO_init (Some 1) n = Inl ValueError \<and>
   (a \<noteq> 1 \<longrightarrow> (\<exists>e. RenyiELBO_init (Some a) n = Inr e \<and> alpha e = a)) \<and>
   (a \<noteq> 1 \<longrightarrow> (\<exists>e. RenyiELBO_init (Some a) None = Inr e \<and> num_particles e = 2)) \<and>
   (\<exists>e. RenyiELBO_init None None = Inr e \<and> num_particles e = 2 \<and> alpha e = 0)"
  by (simp add: RenyiELBO_init_def ELBO_init_def assign_vectorize_particles_fn_def
      ELBO.extend_def)

theorem RenyiELBO_init_alpha_witness:
  "RenyiELBO_init (Some 1) (Some 7) = Inl ValueError \<and>
   (\<exists>e. RenyiELBO_init (Some (1/2)) (Some 7) = Inr e \<and> alpha e = 1/2) \<and>
   (\<exists>e. RenyiELBO_init (Some (1/2)) None = Inr e \<and> num_particles e = 2)"
  using RenyiELBO_init_alpha [of "Some 7" "1/2"] by simp

subsection \<open>The partitioner\<close>

lemma od_pop_keys:
  assumes "od_pop k d = Inr (v, d')"
  shows "k \<in> od_keys d" and "od_keys d' = od_keys d - {k}" and "set d' \<subseteq> set d"
    and "distinct (map fst d) \<Longrightarrow> distinct (map fst d')" and "(k, v) \<in> set d"
proof -
  from assms obtain m: "map_of d k = Some v" and d': "d' = filter (\<lambda>kv. fst kv \<noteq> k) d"
    by (auto simp: od_pop_def split: option.splits)
  from m show kv: "(k, v) \<in> set d" by (rule map_of_SomeD)
  then show "k \<in> od_keys d" by (force simp: od_keys_def)
  show "od_keys d' = od_keys d - {k}" unfolding d' od_keys_def by force
  show "set d' \<subseteq> set d" unfolding d' by auto
  show "distinct (map fst d) \<Longrightarrow> distinct (map fst d')"
    unfolding d' by (simp add: distinct_map_filter)
qed

lemma visit_spec:
  "visit adj c p = (c', p') \<Longrightarrow>
     \<exists>new. c' = c @ new \<and> p' = p @ new \<and> distinct new \<and> set new = set adj - set c"
proof (induction adj arbitrary: c p)
  case Nil
  then show ?case by simp
next
  case (Cons v vs)
  show ?case
  proof (cases "v \<in> set c")
    case True
    with Cons.prems have "visit vs c p = (c', p')" by simp
    from Cons.IH[OF this] True show ?thesis by auto
  next
    case False
    with Cons.prems have "visit vs (c @ [v]) (p @ [v]) = (c', p')" by simp
    from Cons.IH[OF this] obtain new where
      n: "c' = (c @ [v]) @ new" "p' = (p @ [v]) @ new" "distinct new"
         "set new = set vs - set (c @ [v])" by blast
    have "c' = c @ (v # new)" "p' = p @ (v # new)" using n by simp_all
    moreover have "distinct (v # new)" using n by auto
    moreover have "set (v # new) = set (v # vs) - set c" using n False by auto
    ultimately show ?thesis by blast
  qed
qed

lemma explore_sound:
  "explore n c p = Inr (n', c') \<Longrightarrow> set p \<subseteq> set c \<Longrightarrow>
     od_keys n' \<subseteq> od_keys n \<and> set c' = set c \<union> (od_keys n - od_keys n') \<and>
     set p \<subseteq> od_keys n - od_keys n' \<and> set n' \<subseteq> set n \<and>
     (distinct (map fst n) \<longrightarrow> distinct (map fst n'))"
proof (induction n c p rule: explore.induct)
  case (1 neighbors component pending)
  show ?case
  proof (cases "pending = []")
    case True
    with "1.prems" show ?thesis by (simp add: explore.simps)
  next
    case False
    with "1.prems" obtain adj n1 where pop: "od_pop (last pending) neighbors = Inr (adj, n1)"
      by (subst (asm) explore.simps) (auto split: sum.splits)
    obtain c1 p1 where v: "visit adj component (butlast pending) = (c1, p1)"
      by (cases "visit adj component (butlast pending)")
    from "1.prems" False pop v have ex: "explore n1 c1 p1 = Inr (n', c')"
      by (subst (asm) explore.simps) simp
    from visit_spec[OF v] obtain new where
      new: "c1 = component @ new" "p1 = butlast pending @ new" by blast
    have sub: "set p1 \<subseteq> set c1"
      using new "1.prems"(2) by (auto dest: in_set_butlastD)
    note IH = "1.IH"[OF False pop refl v[symmetric] ex sub]
    note pk = od_pop_keys[OF pop]
    have lastp: "last pending \<in> set pending" using False by simp
    have pend: "set pending = insert (last pending) (set (butlast pending))"
      using False by (metis append_butlast_last_id list.simps(15) rotate1.simps(2) set_rotate1)
    show ?thesis
    proof (intro conjI)
      show "od_keys n' \<subseteq> od_keys neighbors" using IH pk by auto
      show "set c' = set component \<union> (od_keys neighbors - od_keys n')"
        using IH pk new lastp "1.prems"(2) by auto
      show "set pending \<subseteq> od_keys neighbors - od_keys n'"
        using IH pk new pend by auto
      show "set n' \<subseteq> set neighbors" using IH pk by auto
      show "distinct (map fst neighbors) \<longrightarrow> distinct (map fst n')" using IH pk by auto
    qed
  qed
qed


lemma set_foldl_od_add: "set (foldl (\<lambda>c w. od_add w c) c0 ws) = set c0 \<union> set ws"
  by (induction ws arbitrary: c0) (auto simp: od_add_def)

lemma od_keys_butlast:
  assumes "distinct (map fst n)" "n \<noteq> []"
  shows "od_keys (butlast n) = od_keys n - {fst (last n)}"
    and "distinct (map fst (butlast n))"
proof -
  from assms(2) obtain ys y where n: "n = ys @ [y]" by (cases n rule: rev_cases) auto
  with assms(1) show "od_keys (butlast n) = od_keys n - {fst (last n)}"
    by (auto simp: od_keys_def)
  from n assms(1) show "distinct (map fst (butlast n))" by simp
qed

text \<open>One round of the outer loop: the component found is exactly the set of vertices
  the round removes from the dictionary.\<close>

lemma round_sound:
  assumes "distinct (map fst n)" "n \<noteq> []" "last n = (v, pending)"
    and "explore (butlast n) (foldl (\<lambda>c w. od_add w c) [v] pending) pending = Inr (n1, cmpt)"
  shows "set cmpt = od_keys n - od_keys n1" "od_keys n1 \<subseteq> od_keys n"
    "distinct (map fst n1)" "v \<in> set cmpt" "set n1 \<subseteq> set n"
proof -
  have sub: "set pending \<subseteq> set (foldl (\<lambda>c w. od_add w c) [v] pending)"
    by (auto simp: set_foldl_od_add)
  note es = explore_sound[OF assms(4) sub]
  note kb = od_keys_butlast[OF assms(1,2)]
  have v: "v \<in> od_keys n" using assms(2,3) by (metis fst_conv image_eqI last_in_set od_keys_def)
  show "set cmpt = od_keys n - od_keys n1"
    using es kb v assms(3) by (auto simp: set_foldl_od_add)
  show "od_keys n1 \<subseteq> od_keys n" using es kb by auto
  show "distinct (map fst n1)" using es kb by auto
  show "v \<in> set cmpt" using es by (auto simp: set_foldl_od_add)
  show "set n1 \<subseteq> set n" using es by (auto dest: in_set_butlastD)
qed

lemma loop_sound:
  "components_loop sv n acc = Inr res \<Longrightarrow> distinct (map fst n) \<Longrightarrow>
     \<exists>new. res = acc @ new \<and>
       (\<forall>p\<in>set new. fst p \<noteq> {} \<and> fst p \<union> snd p \<subseteq> od_keys n) \<and>
       (\<forall>i<length new. \<forall>j<length new. i \<noteq> j \<longrightarrow>
           (fst (new ! i) \<union> snd (new ! i)) \<inter> (fst (new ! j) \<union> snd (new ! j)) = {}) \<and>
       (\<forall>k\<in>od_keys n - sv. \<exists>p\<in>set new. k \<in> fst p)"
proof (induction sv n acc arbitrary: res rule: components_loop.induct)
  case (1 sv n acc)
  show ?case
  proof (cases "n = []")
    case True
    with "1.prems" have "res = acc" by (simp add: components_loop.simps)
    with True show ?thesis by (simp add: od_keys_def)
  next
    case False
    obtain v pending where lst: "last n = (v, pending)" by (cases "last n")
    let ?c0 = "foldl (\<lambda>c w. od_add w c) [v] pending"
    from "1.prems"(1) False lst obtain n1 cmpt where
      ex: "explore (butlast n) ?c0 pending = Inr (n1, cmpt)"
      by (subst (asm) components_loop.simps) (auto split: sum.splits)
    note rs = round_sound[OF "1.prems"(2) False lst ex]
    define F where "F = set (filter (\<lambda>v. v \<notin> sv) cmpt)"
    define M where "M = set (filter (\<lambda>v. v \<in> sv) cmpt)"
    have FM: "F \<union> M = set cmpt" by (auto simp: F_def M_def)
    have Fsv: "F = set cmpt - sv" by (auto simp: F_def)
    show ?thesis
    proof (cases "filter (\<lambda>v. v \<notin> sv) cmpt \<noteq> []")
      case True
      with "1.prems"(1) False lst ex
      have rec: "components_loop sv n1 (acc @ [(F, M)]) = Inr res"
        unfolding F_def M_def by (subst (asm) components_loop.simps) simp
      from "1.IH"(1)[OF False lst[symmetric] ex refl True rec[unfolded F_def M_def] rs(3)]
      obtain new where new: "res = (acc @ [(F, M)]) @ new"
        "\<forall>p\<in>set new. fst p \<noteq> {} \<and> fst p \<union> snd p \<subseteq> od_keys n1"
        "\<forall>i<length new. \<forall>j<length new. i \<noteq> j \<longrightarrow>
           (fst (new ! i) \<union> snd (new ! i)) \<inter> (fst (new ! j) \<union> snd (new ! j)) = {}"
        "\<forall>k\<in>od_keys n1 - sv. \<exists>p\<in>set new. k \<in> fst p"
        unfolding F_def M_def by blast
      let ?new = "(F, M) # new"
      have a: "res = acc @ ?new" using new(1) by simp
      have Fne: "F \<noteq> {}" using True by (auto simp: filter_empty_conv F_def)
      have b: "\<forall>p\<in>set ?new. fst p \<noteq> {} \<and> fst p \<union> snd p \<subseteq> od_keys n"
      proof
        fix p assume "p \<in> set ?new"
        then consider "p = (F, M)" | "p \<in> set new" by auto
        then show "fst p \<noteq> {} \<and> fst p \<union> snd p \<subseteq> od_keys n"
        proof cases
          case 1
          from FM rs(1) have "F \<union> M \<subseteq> od_keys n" by auto
          with Fne 1 show ?thesis by simp
        next
          case 2
          with new(2) rs(2) show ?thesis by blast
        qed
      qed
      have disj: "\<forall>p\<in>set new. (F \<union> M) \<inter> (fst p \<union> snd p) = {}"
        using new(2) rs(1) FM by blast
      have c: "\<forall>i<length ?new. \<forall>j<length ?new. i \<noteq> j \<longrightarrow>
           (fst (?new ! i) \<union> snd (?new ! i)) \<inter> (fst (?new ! j) \<union> snd (?new ! j)) = {}"
      proof (intro allI impI)
        fix i j assume ij: "i < length ?new" "j < length ?new" "i \<noteq> j"
        show "(fst (?new ! i) \<union> snd (?new ! i)) \<inter> (fst (?new ! j) \<union> snd (?new ! j)) = {}"
        proof (cases i)
          case 0
          with ij obtain j' where j: "j = Suc j'" "j' < length new" by (cases j) auto
          then have "new ! j' \<in> set new" by simp
          with disj 0 j show ?thesis by simp
        next
          case (Suc i')
          show ?thesis
          proof (cases j)
            case 0
            from Suc ij have "new ! i' \<in> set new" by simp
            with disj 0 Suc show ?thesis by (simp add: Int_commute)
          next
            case (Suc j')
            with \<open>i = Suc i'\<close> ij new(3) show ?thesis by simp
          qed
        qed
      qed
      have d: "\<forall>k\<in>od_keys n - sv. \<exists>p\<in>set ?new. k \<in> fst p"
      proof
        fix k assume k: "k \<in> od_keys n - sv"
        show "\<exists>p\<in>set ?new. k \<in> fst p"
        proof (cases "k \<in> od_keys n1")
          case True
          with k new(4) show ?thesis by auto
        next
          case False
          with k rs(1) have "k \<in> F" by (auto simp: Fsv)
          then show ?thesis by simp
        qed
      qed
      from a b c d show ?thesis by blast
    next
      case F: False
      with "1.prems"(1) False lst ex
      have rec: "components_loop sv n1 acc = Inr res"
        by (subst (asm) components_loop.simps) simp
      from "1.IH"(2)[OF False lst[symmetric] ex refl F rec rs(3)]
      obtain new where new: "res = acc @ new"
        "\<forall>p\<in>set new. fst p \<noteq> {} \<and> fst p \<union> snd p \<subseteq> od_keys n1"
        "\<forall>i<length new. \<forall>j<length new. i \<noteq> j \<longrightarrow>
           (fst (new ! i) \<union> snd (new ! i)) \<inter> (fst (new ! j) \<union> snd (new ! j)) = {}"
        "\<forall>k\<in>od_keys n1 - sv. \<exists>p\<in>set new. k \<in> fst p" by blast
      have "\<forall>k\<in>od_keys n - sv. \<exists>p\<in>set new. k \<in> fst p"
      proof
        fix k assume k: "k \<in> od_keys n - sv"
        have "k \<in> od_keys n1"
        proof (rule ccontr)
          assume "k \<notin> od_keys n1"
          with k rs(1) have "k \<in> set cmpt" by auto
          with k have "k \<in> set (filter (\<lambda>v. v \<notin> sv) cmpt)" by auto
          with F show False by (simp add: filter_empty_conv)
        qed
        with k new(4) show "\<exists>p\<in>set new. k \<in> fst p" by auto
      qed
      with new rs(2) show ?thesis by blast
    qed
  qed
qed



lemma agrees_subset: "agrees n E \<Longrightarrow> set n' \<subseteq> set n \<Longrightarrow> agrees n' E"
  by (auto simp: agrees_def)

lemma od_pop_total:
  assumes "k \<in> od_keys d"
  shows "\<exists>v d'. od_pop k d = Inr (v, d')"
proof -
  from assms have "map_of d k \<noteq> None"
    by (simp add: od_keys_def map_of_eq_None_iff)
  then show ?thesis by (auto simp: od_pop_def)
qed

lemma set_butlast_distinct:
  assumes "distinct p" "p \<noteq> []"
  shows "set (butlast p) = set p - {last p}"
proof -
  from assms(2) obtain ys y where "p = ys @ [y]" by (cases p rule: rev_cases) auto
  with assms(1) show ?thesis by auto
qed

lemma explore_total:
  assumes "agrees n E" "distinct p" "set p \<subseteq> od_keys n" "set p \<subseteq> set c"
    "set c \<inter> od_keys n \<subseteq> set p" "E `` od_keys n \<subseteq> od_keys n \<union> set c"
  shows "\<exists>n' c'. explore n c p = Inr (n', c')"
  using assms
proof (induction n c p rule: explore.induct)
  case (1 neighbors component pending)
  show ?case
  proof (cases "pending = []")
    case True
    then show ?thesis by (simp add: explore.simps)
  next
    case False
    let ?v = "last pending"
    have vp: "?v \<in> set pending" using False by simp
    then have vk: "?v \<in> od_keys neighbors" using "1.prems"(3) by auto
    from od_pop_total[OF vk] obtain adj n1 where pop: "od_pop ?v neighbors = Inr (adj, n1)"
      by blast
    note pk = od_pop_keys[OF pop]
    obtain c1 p1 where v: "visit adj component (butlast pending) = (c1, p1)"
      by (cases "visit adj component (butlast pending)")
    from visit_spec[OF v] obtain new where
      new: "c1 = component @ new" "p1 = butlast pending @ new" "distinct new"
           "set new = set adj - set component" by blast
    from pk(5) "1.prems"(1) have adj: "set adj = E `` {?v}"
      by (auto simp: agrees_def)
    have bl: "set (butlast pending) = set pending - {?v}"
      by (rule set_butlast_distinct[OF "1.prems"(2) False])
    have adjsub: "set adj \<subseteq> od_keys neighbors \<union> set component"
      using adj vk "1.prems"(6) by blast
    have a1: "agrees n1 E" by (rule agrees_subset[OF "1.prems"(1) pk(3)])
    have a2: "distinct p1"
      using new "1.prems"(2,4) bl by (auto simp: distinct_butlast)
    have a3: "set p1 \<subseteq> od_keys n1"
      using new pk(2) bl "1.prems"(3,4) adjsub vp by auto
    have a4: "set p1 \<subseteq> set c1"
      using new bl "1.prems"(4) by auto
    have a5: "set c1 \<inter> od_keys n1 \<subseteq> set p1"
      using new pk(2) bl "1.prems"(5) by auto
    have a6: "E `` od_keys n1 \<subseteq> od_keys n1 \<union> set c1"
    proof
      fix x assume "x \<in> E `` od_keys n1"
      then have "x \<in> E `` od_keys neighbors" using pk(2) by auto
      then have "x \<in> od_keys neighbors \<union> set component" using "1.prems"(6) by auto
      then show "x \<in> od_keys n1 \<union> set c1"
        using pk(2) new(1) vp "1.prems"(4) by auto
    qed
    from "1.IH"[OF False pop refl v[symmetric] a1 a2 a3 a4 a5 a6]
    obtain n' c' where "explore n1 c1 p1 = Inr (n', c')" by blast
    then have "explore neighbors component pending = Inr (n', c')"
      using False pop v by (subst explore.simps) simp
    then show ?thesis by blast
  qed
qed

lemma explore_graph:
  assumes "explore n c p = Inr (n', c')" "agrees n E" "set p \<subseteq> set c"
    "E `` (set c - set p) \<subseteq> set c" "set c \<subseteq> E\<^sup>* `` {v0}"
  shows "E `` set c' \<subseteq> set c' \<and> set c' \<subseteq> E\<^sup>* `` {v0}"
  using assms
proof (induction n c p rule: explore.induct)
  case (1 neighbors component pending)
  show ?case
  proof (cases "pending = []")
    case True
    with "1.prems" show ?thesis by (simp add: explore.simps)
  next
    case False
    let ?v = "last pending"
    have vp: "?v \<in> set pending" using False by simp
    with "1.prems"(1) False obtain adj n1 where pop: "od_pop ?v neighbors = Inr (adj, n1)"
      by (subst (asm) explore.simps) (auto split: sum.splits)
    note pk = od_pop_keys[OF pop]
    obtain c1 p1 where v: "visit adj component (butlast pending) = (c1, p1)"
      by (cases "visit adj component (butlast pending)")
    from "1.prems"(1) False pop v have ex: "explore n1 c1 p1 = Inr (n', c')"
      by (subst (asm) explore.simps) simp
    from visit_spec[OF v] obtain new where
      new: "c1 = component @ new" "p1 = butlast pending @ new" "distinct new"
           "set new = set adj - set component" by blast
    from pk(5) "1.prems"(2) have adj: "set adj = E `` {?v}"
      by (auto simp: agrees_def)
    have pend: "set pending = insert ?v (set (butlast pending))"
      using False by (metis append_butlast_last_id list.simps(15) rotate1.simps(2) set_rotate1)
    have a1: "agrees n1 E" by (rule agrees_subset[OF "1.prems"(2) pk(3)])
    have a3: "set p1 \<subseteq> set c1"
      using new "1.prems"(3) by (auto dest: in_set_butlastD)
    have a4: "E `` (set c1 - set p1) \<subseteq> set c1"
    proof
      fix x assume "x \<in> E `` (set c1 - set p1)"
      then obtain w where w: "w \<in> set c1" "w \<notin> set p1" "(w, x) \<in> E" by auto
      from w(1,2) new have wc: "w \<in> set component" "w \<notin> set (butlast pending)" by auto
      show "x \<in> set c1"
      proof (cases "w = ?v")
        case True
        with w(3) adj have "x \<in> set adj" by auto
        with new show ?thesis by auto
      next
        case False
        with wc pend have "w \<in> set component - set pending" by auto
        with w(3) "1.prems"(4) have "x \<in> set component" by auto
        with new show ?thesis by simp
      qed
    qed
    have a5: "set c1 \<subseteq> E\<^sup>* `` {v0}"
    proof
      fix x assume "x \<in> set c1"
      then consider "x \<in> set component" | "x \<in> set new" using new by auto
      then show "x \<in> E\<^sup>* `` {v0}"
      proof cases
        case 1
        with "1.prems"(5) show ?thesis by auto
      next
        case 2
        with new adj have "(?v, x) \<in> E" by auto
        moreover have "(v0, ?v) \<in> E\<^sup>*" using vp "1.prems"(3,5) by auto
        ultimately show ?thesis by auto
      qed
    qed
    from "1.IH"[OF False pop refl v[symmetric] ex a1 a3 a4 a5] show ?thesis .
  qed
qed



lemma round_graph:
  assumes "distinct (map fst n)" "agrees n E" "sym E" "irrefl E" "E `` od_keys n \<subseteq> od_keys n"
    and "n \<noteq> []" "last n = (v, pending)"
  shows "\<exists>n1 cmpt. explore (butlast n) (foldl (\<lambda>c w. od_add w c) [v] pending) pending = Inr (n1, cmpt) \<and>
           E `` set cmpt \<subseteq> set cmpt \<and> (\<forall>x\<in>set cmpt. \<forall>y\<in>set cmpt. (x, y) \<in> E\<^sup>*) \<and>
           agrees n1 E \<and> E `` od_keys n1 \<subseteq> od_keys n1"
proof -
  let ?c0 = "foldl (\<lambda>c w. od_add w c) [v] pending"
  let ?nb = "butlast n"
  have vin: "(v, pending) \<in> set n" using assms(6,7) by (metis last_in_set)
  then have pend: "distinct pending" "set pending = E `` {v}"
    using assms(2) by (auto simp: agrees_def)
  have vk: "v \<in> od_keys n" using vin by (force simp: od_keys_def)
  have vnp: "v \<notin> set pending" using pend(2) assms(4) by (auto simp: irrefl_def)
  have c0: "set ?c0 = insert v (set pending)" by (simp add: set_foldl_od_add)
  have kb: "od_keys ?nb = od_keys n - {v}"
    using od_keys_butlast(1)[OF assms(1,6)] assms(7) by simp
  have ag: "agrees ?nb E"
    by (rule agrees_subset[OF assms(2)]) (auto dest: in_set_butlastD)
  have t3: "set pending \<subseteq> od_keys ?nb" using pend(2) assms(5) vk vnp kb by auto
  have t4: "set pending \<subseteq> set ?c0" using c0 by auto
  have t5: "set ?c0 \<inter> od_keys ?nb \<subseteq> set pending" using c0 kb by auto
  have t6: "E `` od_keys ?nb \<subseteq> od_keys ?nb \<union> set ?c0" using assms(5) kb c0 by auto
  from explore_total[OF ag pend(1) t3 t4 t5 t6]
  obtain n1 cmpt where ex: "explore ?nb ?c0 pending = Inr (n1, cmpt)" by blast
  have g4: "E `` (set ?c0 - set pending) \<subseteq> set ?c0" using c0 pend(2) by auto
  have g5: "set ?c0 \<subseteq> E\<^sup>* `` {v}" using c0 pend(2) by auto
  from explore_graph[OF ex ag t4 g4 g5]
  have cl: "E `` set cmpt \<subseteq> set cmpt" and reach: "set cmpt \<subseteq> E\<^sup>* `` {v}" by auto
  note rs = round_sound[OF assms(1,6,7) ex]
  have symr: "sym (E\<^sup>*)" using assms(3) by (rule sym_rtrancl)
  have conn: "\<forall>x\<in>set cmpt. \<forall>y\<in>set cmpt. (x, y) \<in> E\<^sup>*"
  proof (intro ballI)
    fix x y assume "x \<in> set cmpt" "y \<in> set cmpt"
    with reach have "(v, x) \<in> E\<^sup>*" "(v, y) \<in> E\<^sup>*" by auto
    with symr have "(x, v) \<in> E\<^sup>*" by (auto dest: symD)
    with \<open>(v, y) \<in> E\<^sup>*\<close> show "(x, y) \<in> E\<^sup>*" by (meson rtrancl_trans)
  qed
  have ag1: "agrees n1 E" by (rule agrees_subset[OF assms(2) rs(5)])
  have cl1: "E `` od_keys n1 \<subseteq> od_keys n1"
  proof
    fix x assume "x \<in> E `` od_keys n1"
    then obtain u where u: "u \<in> od_keys n1" "(u, x) \<in> E" by auto
    with rs(2) assms(5) have xk: "x \<in> od_keys n" by auto
    show "x \<in> od_keys n1"
    proof (rule ccontr)
      assume "x \<notin> od_keys n1"
      with xk rs(1) have "x \<in> set cmpt" by auto
      moreover from u(2) assms(3) have "(x, u) \<in> E" by (auto dest: symD)
      ultimately have "u \<in> set cmpt" using cl by auto
      with rs(1) u(1) show False by auto
    qed
  qed
  from ex cl conn ag1 cl1 show ?thesis by blast
qed

lemma loop_graph:
  assumes "distinct (map fst n)" "agrees n E" "sym E" "irrefl E" "E `` od_keys n \<subseteq> od_keys n"
  shows "\<exists>new. components_loop sv n acc = Inr (acc @ new) \<and> (\<forall>p\<in>set new. component_of E sv p)"
  using assms
proof (induction sv n acc rule: components_loop.induct)
  case (1 sv n acc)
  show ?case
  proof (cases "n = []")
    case True
    then have "components_loop sv n acc = Inr (acc @ [])" by (simp add: components_loop.simps)
    then show ?thesis by (metis empty_iff list.set(1))
  next
    case False
    obtain v pending where lst: "last n = (v, pending)" by (cases "last n")
    let ?c0 = "foldl (\<lambda>c w. od_add w c) [v] pending"
    from round_graph[OF "1.prems" False lst] obtain n1 cmpt where
      ex: "explore (butlast n) ?c0 pending = Inr (n1, cmpt)"
      and cl: "E `` set cmpt \<subseteq> set cmpt"
      and conn: "\<forall>x\<in>set cmpt. \<forall>y\<in>set cmpt. (x, y) \<in> E\<^sup>*"
      and ag1: "agrees n1 E" and cl1: "E `` od_keys n1 \<subseteq> od_keys n1" by blast
    note rs = round_sound[OF "1.prems"(1) False lst ex]
    define F where "F = set (filter (\<lambda>v. v \<notin> sv) cmpt)"
    define M where "M = set (filter (\<lambda>v. v \<in> sv) cmpt)"
    have FM: "F \<union> M = set cmpt" "F \<inter> sv = {}" "M \<subseteq> sv" by (auto simp: F_def M_def)
    have comp: "component_of E sv (F, M)"
      using FM cl conn by (simp add: component_of_def)
    show ?thesis
    proof (cases "filter (\<lambda>v. v \<notin> sv) cmpt \<noteq> []")
      case True
      from "1.IH"(1)[OF False lst[symmetric] ex refl True rs(3) ag1 "1.prems"(3,4) cl1]
      obtain new where new: "components_loop sv n1 (acc @ [(F, M)]) = Inr ((acc @ [(F, M)]) @ new)"
        "\<forall>p\<in>set new. component_of E sv p" unfolding F_def M_def by blast
      have "components_loop sv n acc = Inr (acc @ ((F, M) # new))"
        using False lst ex True new(1) unfolding F_def M_def
        by (subst components_loop.simps) simp
      moreover have "\<forall>p\<in>set ((F, M) # new). component_of E sv p" using comp new(2) by simp
      ultimately show ?thesis by blast
    next
      case F: False
      from "1.IH"(2)[OF False lst[symmetric] ex refl F rs(3) ag1 "1.prems"(3,4) cl1]
      obtain new where new: "components_loop sv n1 acc = Inr (acc @ new)"
        "\<forall>p\<in>set new. component_of E sv p" by blast
      have "components_loop sv n acc = Inr (acc @ new)"
        using False lst ex F new(1) by (subst components_loop.simps) simp
      with new(2) show ?thesis by blast
    qed
  qed
qed





lemma upd_append_fst: "map fst (upd_append k x n) = map fst n"
  unfolding upd_append_def by (induction n) auto

lemma nb_edges_Cons:
  "nb_edges (a # n) = {(fst a, w) |w. w \<in> set (snd a)} \<union> nb_edges n"
  unfolding nb_edges_def by (cases a) auto

lemma upd_append_edges_gen:
  "nb_edges (upd_append k x n) = nb_edges n \<union> (if k \<in> od_keys n then {(k, x)} else {})"
proof (induction n)
  case Nil
  show ?case by (simp add: nb_edges_def upd_append_def od_keys_def)
next
  case (Cons a n)
  have u: "upd_append k x (a # n)
             = (if fst a = k then (fst a, snd a @ [x]) else a) # upd_append k x n"
    by (simp add: upd_append_def)
  have ks: "od_keys (a # n) = insert (fst a) (od_keys n)" by (simp add: od_keys_def)
  show ?case unfolding u nb_edges_Cons Cons.IH ks by auto
qed

lemma upd_append_edges:
  "k \<in> od_keys n \<Longrightarrow> nb_edges (upd_append k x n) = insert (k, x) (nb_edges n)"
  by (simp add: upd_append_edges_gen)

lemma upd_append_distinct:
  assumes "\<forall>(u, adj) \<in> set n. distinct adj" "(k, x) \<notin> nb_edges n"
  shows "\<forall>(u, adj) \<in> set (upd_append k x n). distinct adj"
  using assms unfolding nb_edges_def upd_append_def by (auto split: if_splits)

lemma extend_edges:
  "nb_edges (n @ [(k, [x])]) = insert (k, x) (nb_edges n)"
  unfolding nb_edges_def by auto

lemma add_edge_step:
  assumes "binv K0 n P" "key \<in> K0" "d \<in> sv" "K0 \<inter> sv = {}" "P \<subseteq> K0 \<times> sv" "(key, d) \<notin> P"
  shows "\<exists>n1. od_append key d n = Inr n1 \<and>
           binv K0 (od_setdefault_append d key n1) (insert (key, d) P)"
proof -
  from assms(1) have dk: "distinct (map fst n)" and da: "\<forall>(u, adj) \<in> set n. distinct adj"
    and ed: "nb_edges n = P \<union> P\<inverse>" and ks: "od_keys n = K0 \<union> snd ` P"
    by (auto simp: binv_def)
  have kin: "key \<in> od_keys n" using ks assms(2) by auto
  define n1 where "n1 = upd_append key d n"
  have ap: "od_append key d n = Inr n1" using kin by (simp add: od_append_def n1_def)
  have k1: "od_keys n1 = od_keys n"
    unfolding od_keys_def n1_def using upd_append_fst[of key d n]
    by (metis list.set_map)
  have dk1: "distinct (map fst n1)" unfolding n1_def using dk by (simp add: upd_append_fst)
  have notin1: "(key, d) \<notin> nb_edges n" using ed assms(2-6) by auto
  have da1: "\<forall>(u, adj) \<in> set n1. distinct adj"
    unfolding n1_def by (rule upd_append_distinct[OF da notin1])
  have ed1: "nb_edges n1 = insert (key, d) (nb_edges n)"
    unfolding n1_def by (rule upd_append_edges[OF kin])
  have notin2: "(d, key) \<notin> nb_edges n1" using ed1 ed assms(2-6) by auto
  let ?n2 = "od_setdefault_append d key n1"
  have "binv K0 ?n2 (insert (key, d) P)"
  proof (cases "d \<in> od_keys n1")
    case True
    then have n2: "?n2 = upd_append d key n1" by (simp add: od_setdefault_append_def)
    have "distinct (map fst ?n2)" unfolding n2 using dk1 by (simp add: upd_append_fst)
    moreover have "\<forall>(u, adj) \<in> set ?n2. distinct adj"
      unfolding n2 by (rule upd_append_distinct[OF da1 notin2])
    moreover have "nb_edges ?n2 = insert (key, d) P \<union> (insert (key, d) P)\<inverse>"
      unfolding n2 upd_append_edges[OF True] ed1 ed by auto
    moreover have "od_keys ?n2 = K0 \<union> snd ` insert (key, d) P"
    proof -
      have "od_keys ?n2 = od_keys n1"
        unfolding od_keys_def n2 using upd_append_fst[of d key n1] by (metis list.set_map)
      with k1 ks True show ?thesis by auto
    qed
    ultimately show ?thesis by (simp add: binv_def)
  next
    case False
    then have n2: "?n2 = n1 @ [(d, [key])]" by (simp add: od_setdefault_append_def)
    have "distinct (map fst ?n2)" unfolding n2 using dk1 False by (auto simp: od_keys_def)
    moreover have "\<forall>(u, adj) \<in> set ?n2. distinct adj" unfolding n2 using da1 by auto
    moreover have "nb_edges ?n2 = insert (key, d) P \<union> (insert (key, d) P)\<inverse>"
      unfolding n2 extend_edges ed1 ed by auto
    moreover have "od_keys ?n2 = K0 \<union> snd ` insert (key, d) P"
      unfolding n2 using k1 ks by (auto simp: od_keys_def)
    ultimately show ?thesis by (simp add: binv_def)
  qed
  with ap show ?thesis by blast
qed

lemma add_edges_spec:
  assumes "binv K0 n P" "key \<in> K0" "K0 \<inter> sv = {}" "P \<subseteq> K0 \<times> sv" "distinct deps"
    "\<forall>d\<in>set deps. (key, d) \<notin> P"
  shows "\<exists>n'. add_edges sv key deps n = Inr n' \<and>
           binv K0 n' (P \<union> {(key, d) |d. d \<in> set deps \<and> d \<in> sv})"
  using assms
proof (induction deps arbitrary: n P)
  case Nil
  then show ?case by simp
next
  case (Cons d deps)
  show ?case
  proof (cases "d \<in> sv")
    case True
    from Cons.prems have nd: "(key, d) \<notin> P" by simp
    from add_edge_step[OF Cons.prems(1,2) True Cons.prems(3,4) nd]
    obtain n1 where n1: "od_append key d n = Inr n1"
      "binv K0 (od_setdefault_append d key n1) (insert (key, d) P)" by blast
    have p4: "insert (key, d) P \<subseteq> K0 \<times> sv" using Cons.prems(2,4) True by auto
    have p5: "distinct deps" using Cons.prems(5) by simp
    have p6: "\<forall>d'\<in>set deps. (key, d') \<notin> insert (key, d) P"
      using Cons.prems(5,6) by auto
    from Cons.IH[OF n1(2) Cons.prems(2,3) p4 p5 p6]
    obtain n' where n': "add_edges sv key deps (od_setdefault_append d key n1) = Inr n'"
      "binv K0 n' (insert (key, d) P \<union> {(key, d') |d'. d' \<in> set deps \<and> d' \<in> sv})" by blast
    have eq: "insert (key, d) P \<union> {(key, d') |d'. d' \<in> set deps \<and> d' \<in> sv}
                = P \<union> {(key, d') |d'. d' \<in> set (d # deps) \<and> d' \<in> sv}"
      using True by auto
    from n1(1) n'(1) True have "add_edges sv key (d # deps) n = Inr n'" by simp
    with n'(2) eq show ?thesis by auto
  next
    case False
    have p5: "distinct deps" using Cons.prems(5) by simp
    have p6: "\<forall>d'\<in>set deps. (key, d') \<notin> P" using Cons.prems(6) by auto
    from Cons.IH[OF Cons.prems(1,2,3,4) p5 p6]
    obtain n' where n': "add_edges sv key deps n = Inr n'"
      "binv K0 n' (P \<union> {(key, d') |d'. d' \<in> set deps \<and> d' \<in> sv})" by blast
    have eq: "{(key, d') |d'. d' \<in> set deps \<and> d' \<in> sv}
                = {(key, d') |d'. d' \<in> set (d # deps) \<and> d' \<in> sv}"
      using False by auto
    from n'(1) False have "add_edges sv key (d # deps) n = Inr n'" by simp
    with n'(2) eq show ?thesis by auto
  qed
qed

lemma build_neighbors_spec:
  assumes "binv K0 n P" "fst ` set items \<subseteq> K0" "K0 \<inter> sv = {}" "P \<subseteq> K0 \<times> sv"
    "distinct (map fst items)" "\<forall>(k, deps) \<in> set items. distinct deps"
    "\<forall>(k, deps) \<in> set items. \<forall>d. (k, d) \<notin> P"
  shows "\<exists>n'. build_neighbors sv items n = Inr n' \<and> binv K0 n' (P \<union> dep_edges items sv)"
  using assms
proof (induction items arbitrary: n P)
  case Nil
  then show ?case by (simp add: dep_edges_def)
next
  case (Cons item items)
  obtain key deps where item: "item = (key, deps)" by (cases item)
  let ?P1 = "P \<union> {(key, d) |d. d \<in> set deps \<and> d \<in> sv}"
  have kin: "key \<in> K0" using Cons.prems(2) item by auto
  have dd: "distinct deps" using Cons.prems(6) item by auto
  have np: "\<forall>d\<in>set deps. (key, d) \<notin> P" using Cons.prems(7) item by auto
  from add_edges_spec[OF Cons.prems(1) kin Cons.prems(3,4) dd np]
  obtain n1 where n1: "add_edges sv key deps n = Inr n1" "binv K0 n1 ?P1" by blast
  have q2: "fst ` set items \<subseteq> K0" using Cons.prems(2) by auto
  have q4: "?P1 \<subseteq> K0 \<times> sv" using Cons.prems(4) kin by auto
  have q5: "distinct (map fst items)" using Cons.prems(5) by simp
  have q6: "\<forall>(k, deps) \<in> set items. distinct deps" using Cons.prems(6) by auto
  have q7: "\<forall>(k, deps') \<in> set items. \<forall>d. (k, d) \<notin> ?P1"
    using Cons.prems(5,7) item by force
  from Cons.IH[OF n1(2) q2 Cons.prems(3) q4 q5 q6 q7]
  obtain n' where n': "build_neighbors sv items n1 = Inr n'"
    "binv K0 n' (?P1 \<union> dep_edges items sv)" by blast
  have eq: "?P1 \<union> dep_edges items sv = P \<union> dep_edges (item # items) sv"
    unfolding dep_edges_def item by auto
  from n1(1) n'(1) item have "build_neighbors sv (item # items) n = Inr n'" by simp
  with n'(2) eq show ?case by auto
qed



lemma build_neighbors_graph:
  assumes "distinct (map fst msd)" "\<forall>(k, deps) \<in> set msd. distinct deps"
    "fst ` set msd \<inter> sv = {}"
  shows "\<exists>n. build_neighbors sv msd (map (\<lambda>t. (t, [])) (remdups (map fst msd))) = Inr n \<and>
           distinct (map fst n) \<and> agrees n (dep_graph msd sv) \<and> sym (dep_graph msd sv) \<and>
           irrefl (dep_graph msd sv) \<and> dep_graph msd sv `` od_keys n \<subseteq> od_keys n \<and>
           fst ` set msd \<subseteq> od_keys n"
proof -
  let ?K0 = "fst ` set msd"
  let ?n0 = "map (\<lambda>t. (t, [])) (remdups (map fst msd))"
  let ?D = "dep_edges msd sv"
  let ?E = "dep_graph msd sv"
  have f0: "map fst ?n0 = remdups (map fst msd)" by (simp add: comp_def)
  have k0: "od_keys ?n0 = ?K0"
    by (force simp: od_keys_def)
  have e0: "nb_edges ?n0 = {}" unfolding nb_edges_def by auto
  have d0: "distinct (map fst ?n0)" by (simp add: comp_def)
  have a0: "\<forall>(u, adj) \<in> set ?n0. distinct adj" by auto
  have b0: "binv ?K0 ?n0 {}"
    unfolding binv_def using d0 a0 k0 e0 by (intro conjI) simp_all
  from build_neighbors_spec[OF b0 subset_refl assms(3) _ assms(1,2)]
  obtain n where n: "build_neighbors sv msd ?n0 = Inr n" "binv ?K0 n ({} \<union> ?D)" by auto
  then have dk: "distinct (map fst n)" and da: "\<forall>(u, adj) \<in> set n. distinct adj"
    and ed: "nb_edges n = ?E" and ks: "od_keys n = ?K0 \<union> snd ` ?D"
    by (auto simp: binv_def dep_graph_def)
  have Dsub: "?D \<subseteq> ?K0 \<times> sv" by (force simp: dep_edges_def)
  have ag: "agrees n ?E"
    unfolding agrees_def
  proof (intro ballI, clarify, intro conjI)
    fix u adj assume ua: "(u, adj) \<in> set n"
    with da show "distinct adj" by auto
    have "nb_edges n `` {u} = set adj"
    proof
      show "nb_edges n `` {u} \<subseteq> set adj"
      proof
        fix w assume "w \<in> nb_edges n `` {u}"
        then obtain adj' where a': "(u, adj') \<in> set n" "w \<in> set adj'"
          by (auto simp: nb_edges_def)
        from dk ua a'(1) have "adj' = adj" by (meson eq_key_imp_eq_value)
        with a'(2) show "w \<in> set adj" by simp
      qed
      show "set adj \<subseteq> nb_edges n `` {u}" using ua by (auto simp: nb_edges_def)
    qed
    with ed show "set adj = ?E `` {u}" by simp
  qed
  have sy: "sym ?E" unfolding dep_graph_def by (simp add: sym_Un_converse)
  have ir: "irrefl ?E" unfolding dep_graph_def irrefl_def using Dsub assms(3) by auto
  have cl: "?E `` od_keys n \<subseteq> od_keys n" unfolding ks dep_graph_def using Dsub by force
  from n(1) dk ag sy ir cl ks show ?thesis by blast
qed

text \<open>
  C4 (as amended). Let \<open>model_sum_deps\<close> be a dictionary (distinct keys, each dependency set
  listed without repetition) none of whose keys is in \<open>sum_vars\<close>, as the caller's filter
  \<^verbatim>\<open>if k not in sum_vars\<close> ensures. Then \<^verbatim>\<open>_partition\<close> returns a list of pairs; the factor-name
  sets of pairs at different positions are disjoint; every cost-term name (in particular
  every one whose dependency set meets \<open>sum_vars\<close>) is in the factor-name set of exactly
  one pair; and every pair is a connected component of the bipartite graph linking cost
  terms to the enumerated variables they depend on.
\<close>

theorem partition_components:
  assumes "distinct (map fst model_sum_deps)"
    and "\<forall>(k, deps) \<in> set model_sum_deps. distinct deps"
    and "fst ` set model_sum_deps \<inter> sum_vars = {}"
  shows "\<exists>components. py_partition model_sum_deps sum_vars = Inr components \<and>
           (\<forall>i<length components. \<forall>j<length components. i \<noteq> j \<longrightarrow>
               fst (components ! i) \<inter> fst (components ! j) = {}) \<and>
           (\<forall>k \<in> fst ` set model_sum_deps.
               \<exists>!i. i < length components \<and> k \<in> fst (components ! i)) \<and>
           (\<forall>p \<in> set components. component_of (dep_graph model_sum_deps sum_vars) sum_vars p)"
proof -
  let ?E = "dep_graph model_sum_deps sum_vars"
  from build_neighbors_graph[OF assms] obtain n where
    b: "build_neighbors sum_vars model_sum_deps
          (map (\<lambda>t. (t, [])) (remdups (map fst model_sum_deps))) = Inr n"
    and dk: "distinct (map fst n)" and ag: "agrees n ?E" and sy: "sym ?E" and ir: "irrefl ?E"
    and cl: "?E `` od_keys n \<subseteq> od_keys n" and ks: "fst ` set model_sum_deps \<subseteq> od_keys n"
    by blast
  from loop_graph[OF dk ag sy ir cl, of sum_vars "[]"] obtain cs where
    l: "components_loop sum_vars n [] = Inr cs" and co: "\<forall>p\<in>set cs. component_of ?E sum_vars p"
    by auto
  from loop_sound[OF l dk] have
    dj: "\<forall>i<length cs. \<forall>j<length cs. i \<noteq> j \<longrightarrow>
           (fst (cs ! i) \<union> snd (cs ! i)) \<inter> (fst (cs ! j) \<union> snd (cs ! j)) = {}"
    and cv: "\<forall>k\<in>od_keys n - sum_vars. \<exists>p\<in>set cs. k \<in> fst p" by auto
  have r: "py_partition model_sum_deps sum_vars = Inr cs"
    using b l by (simp add: py_partition_def)
  have d1: "\<forall>i<length cs. \<forall>j<length cs. i \<noteq> j \<longrightarrow> fst (cs ! i) \<inter> fst (cs ! j) = {}"
    using dj by blast
  have d2: "\<forall>k \<in> fst ` set model_sum_deps. \<exists>!i. i < length cs \<and> k \<in> fst (cs ! i)"
  proof
    fix k assume k: "k \<in> fst ` set model_sum_deps"
    with ks assms(3) have "k \<in> od_keys n - sum_vars" by auto
    with cv obtain p where "p \<in> set cs" "k \<in> fst p" by blast
    then obtain i where i: "i < length cs" "k \<in> fst (cs ! i)" by (auto simp: in_set_conv_nth)
    show "\<exists>!i. i < length cs \<and> k \<in> fst (cs ! i)"
    proof (rule ex1I[of _ i])
      show "i < length cs \<and> k \<in> fst (cs ! i)" using i by simp
    next
      fix j assume j: "j < length cs \<and> k \<in> fst (cs ! j)"
      show "j = i"
      proof (rule ccontr)
        assume "j \<noteq> i"
        with d1 i j have "fst (cs ! j) \<inter> fst (cs ! i) = {}" by blast
        with i j show False by auto
      qed
    qed
  qed
  from r d1 d2 co show ?thesis by blast
qed

theorem partition_components_witness:
  "\<exists>components.
     py_partition [(''a'', [''x'', ''y'']), (''b'', [''y'']), (''c'', [''z'']), (''d'', [])]
       {''x'', ''y'', ''z''} = Inr components \<and>
     (\<exists>!i. i < length components \<and> ''b'' \<in> fst (components ! i))"
proof -
  let ?msd = "[(''a'', [''x'', ''y'']), (''b'', [''y'']), (''c'', [''z'']), (''d'', [])]"
  let ?sv = "{''x'', ''y'', ''z''}"
  have h1: "distinct (map fst ?msd)" by simp
  have h2: "\<forall>(k, deps) \<in> set ?msd. distinct deps" by simp
  have h3: "fst ` set ?msd \<inter> ?sv = {}" by simp
  from partition_components[OF h1 h2 h3] show ?thesis by auto
qed

text \<open>
  The claim as stated fails when a cost-term name is itself in \<open>sum_vars\<close>: the cost term
  \<open>k\<close> depends on the enumerated variable \<open>z\<close>, yet the returned list is empty, so \<open>k\<close> is in
  no pair's factor-name set.
\<close>

theorem partition_overlap_counterexample:
  "py_partition [(''k'', [''z''])] {''k'', ''z''} = Inr [] \<and>
   set [''z''] \<inter> {''k'', ''z''} \<noteq> {}"
  by (simp add: py_partition_def od_append_def od_setdefault_append_def upd_append_def
      od_keys_def components_loop.simps explore.simps od_pop_def od_add_def)

subsection \<open>MultiFrameTensor\<close>

lemma reduce_frames_in_target:
  "set frames \<subseteq> set target_frames \<Longrightarrow> reduce_frames target_frames frames v = Inr v"
  by (induction frames arbitrary: v) auto

lemma squeeze_leading_id: "no_leading_one v \<Longrightarrow> squeeze_leading v = v"
  by (subst squeeze_leading.simps) (auto simp: no_leading_one_def)

lemma squeeze_leading_no_leading_one: "no_leading_one (squeeze_leading v)"
proof (induction v rule: squeeze_leading.induct)
  case (1 v)
  show ?case
  proof (cases "shape v \<noteq> [] \<and> hd (shape v) = 1")
    case True
    with 1 show ?thesis by (subst squeeze_leading.simps) simp
  next
    case False
    then show ?thesis by (subst squeeze_leading.simps) (auto simp: no_leading_one_def)
  qed
qed

lemma bcast_rev_last:
  "bcast_rev xs ys = Some zs \<Longrightarrow> xs = [] \<or> last xs \<noteq> 1 \<Longrightarrow> ys = [] \<or> last ys \<noteq> 1
     \<Longrightarrow> zs = [] \<or> last zs \<noteq> 1"
proof (induction xs ys arbitrary: zs rule: bcast_rev.induct)
  case (1 ys)
  then show ?case by simp
next
  case (2 x xs)
  then show ?case by simp
next
  case (3 x xs y ys)
  show ?case
  proof (cases "bcast_rev xs ys")
    case None
    with "3.prems"(1) show ?thesis by (auto split: if_splits)
  next
    case (Some ws)
    have px: "xs = [] \<or> last xs \<noteq> 1" using "3.prems"(2) by (auto split: if_splits)
    have py: "ys = [] \<or> last ys \<noteq> 1" using "3.prems"(3) by (auto split: if_splits)
    have wsE: "ws = [] \<Longrightarrow> xs = [] \<and> ys = []"
      using Some by (cases xs; cases ys) (auto split: if_splits)
    show ?thesis
    proof (cases "x = y \<or> y = 1")
      case True
      with "3.prems"(1) Some have zs: "zs = x # ws" by auto
      from "3.IH"(1)[OF True Some px py] have w: "ws = [] \<or> last ws \<noteq> 1" .
      show ?thesis
      proof (cases "ws = []")
        case True
        with wsE have "xs = []" "ys = []" by auto
        with "3.prems"(2,3) \<open>x = y \<or> y = 1\<close> zs True show ?thesis by auto
      next
        case False
        with w zs show ?thesis by simp
      qed
    next
      case False
      with "3.prems"(1) Some have x1: "x = 1" and zs: "zs = y # ws" by (auto split: if_splits)
      from "3.IH"(2)[OF False x1 Some px py] have w: "ws = [] \<or> last ws \<noteq> 1" .
      show ?thesis
      proof (cases "ws = []")
        case True
        with wsE have "xs = []" "ys = []" by auto
        with "3.prems"(2,3) zs True show ?thesis by auto
      next
        case False
        with w zs show ?thesis by simp
      qed
    qed
  qed
qed

lemma tadd_no_leading_one:
  assumes "tadd a b = Inr s" "no_leading_one a" "no_leading_one b"
  shows "no_leading_one s"
proof -
  from assms(1) obtain zs where z: "bcast_rev (rev (shape a)) (rev (shape b)) = Some zs"
    and s: "shape s = rev zs"
    by (auto simp: tadd_def tbinop_def broadcast_shapes_def split: option.splits)
  have "rev (shape a) = [] \<or> last (rev (shape a)) \<noteq> 1"
    using assms(2) by (auto simp: no_leading_one_def last_rev)
  moreover have "rev (shape b) = [] \<or> last (rev (shape b)) \<noteq> 1"
    using assms(3) by (auto simp: no_leading_one_def last_rev)
  ultimately have "zs = [] \<or> last zs \<noteq> 1" by (rule bcast_rev_last[OF z])
  then show ?thesis unfolding no_leading_one_def s by (auto simp: hd_rev)
qed

lemma add_from_no_leading_one:
  "add_from t vs = Inr r \<Longrightarrow> no_leading_one t \<Longrightarrow> \<forall>v\<in>set vs. no_leading_one v
     \<Longrightarrow> no_leading_one r"
proof (induction vs arbitrary: t)
  case Nil
  then show ?case by simp
next
  case (Cons v vs)
  from Cons.prems(1) obtain s where s: "tadd t v = Inr s" "add_from s vs = Inr r"
    by (auto split: sum.splits)
  from tadd_no_leading_one[OF s(1) Cons.prems(2)] Cons.prems(3) have "no_leading_one s" by simp
  from Cons.IH[OF s(2) this] Cons.prems(3) show ?case by simp
qed

lemma sum_to_loop_Some:
  "sum_to_loop target_frames self (Some t) = Inr res \<Longrightarrow>
     \<exists>vs r. list_all2 (squeezed_term target_frames) self vs \<and> add_from t vs = Inr r \<and> res = Some r"
proof (induction self arbitrary: t)
  case Nil
  then show ?case by simp
next
  case (Cons entry self)
  obtain frames v where e: "entry = (frames, v)" by (cases entry)
  from Cons.prems e obtain u s where u: "reduce_frames target_frames frames v = Inr u"
    and s: "tadd t (squeeze_leading u) = Inr s"
    and l: "sum_to_loop target_frames self (Some s) = Inr res"
    by (auto split: sum.splits)
  from Cons.IH[OF l] obtain vs r where
    vs: "list_all2 (squeezed_term target_frames) self vs" "add_from s vs = Inr r" "res = Some r"
    by blast
  have "squeezed_term target_frames entry (squeeze_leading u)"
    using u e by (auto simp: squeezed_term_def)
  with vs(1) have "list_all2 (squeezed_term target_frames) (entry # self) (squeeze_leading u # vs)"
    by simp
  moreover have "add_from t (squeeze_leading u # vs) = Inr r" using s vs(2) by simp
  ultimately show ?case using vs(3) by blast
qed

lemma sum_to_terms:
  assumes "self \<noteq> []" "sum_to self target_frames = Inr r"
  shows "\<exists>w ws. list_all2 (squeezed_term target_frames) self (w # ws) \<and> add_from w ws = Inr r"
proof -
  from assms(1) obtain frames v rest where self: "self = (frames, v) # rest"
    by (cases self) auto
  from assms(2) obtain res where l: "sum_to_loop target_frames self None = Inr res"
    by (auto simp: sum_to_def split: sum.splits)
  with self obtain u where u: "reduce_frames target_frames frames v = Inr u"
    and l2: "sum_to_loop target_frames rest (Some (squeeze_leading u)) = Inr res"
    by (auto split: sum.splits)
  from sum_to_loop_Some[OF l2] obtain vs r' where
    vs: "list_all2 (squeezed_term target_frames) rest vs"
        "add_from (squeeze_leading u) vs = Inr r'" "res = Some r'" by blast
  from assms(2) l vs(3) have "r' = r" by (simp add: sum_to_def)
  moreover have "squeezed_term target_frames (frames, v) (squeeze_leading u)"
    using u by (auto simp: squeezed_term_def)
  ultimately show ?thesis using vs(1,2) self by auto
qed

text \<open>
  C10. For every non-empty MultiFrameTensor and every \<open>target_frames\<close>, a tensor returned by
  \<^verbatim>\<open>sum_to\<close> has no leading dimension of size 1. It is the sum, formed from left to right,
  of one term per stored entry: the entry reduced over its frames and then squeezed of all
  its leading size-1 axes, so no term has a leading dimension of size 1. And a frame whose
  dimension has size 1 in the current value is skipped by the reduction, even when the
  frame is not in \<open>target_frames\<close>.
\<close>

theorem sum_to_squeezed:
  assumes "self \<noteq> []" and "sum_to self target_frames = Inr r"
  shows "(shape r = [] \<or> hd (shape r) \<noteq> 1) \<and>
         (\<exists>w ws. list_all2 (squeezed_term target_frames) self (w # ws) \<and>
                  (\<forall>x \<in> set (w # ws). shape x = [] \<or> hd (shape x) \<noteq> 1) \<and>
                  add_from w ws = Inr r) \<and>
         (\<forall>f fs v k. py_index (frame_dim f) (ndim v) = Inr k \<and> shape v ! k = 1 \<longrightarrow>
              reduce_frames target_frames (f # fs) v = reduce_frames target_frames fs v)"
proof -
  from sum_to_terms[OF assms] obtain w ws where
    t: "list_all2 (squeezed_term target_frames) self (w # ws)" "add_from w ws = Inr r" by blast
  have nl: "\<forall>x \<in> set (w # ws). no_leading_one x"
  proof
    fix x assume "x \<in> set (w # ws)"
    then obtain i where i: "i < length (w # ws)" "x = (w # ws) ! i"
      by (metis in_set_conv_nth)
    from t(1) i have "squeezed_term target_frames (self ! i) x"
      by (simp add: list_all2_conv_all_nth)
    then show "no_leading_one x"
      by (auto simp: squeezed_term_def squeeze_leading_no_leading_one)
  qed
  then have "no_leading_one r" using add_from_no_leading_one[OF t(2)] by simp
  moreover have "\<forall>f fs v k. py_index (frame_dim f) (ndim v) = Inr k \<and> shape v ! k = 1 \<longrightarrow>
      reduce_frames target_frames (f # fs) v = reduce_frames target_frames fs v"
    by auto
  ultimately show ?thesis using t nl unfolding no_leading_one_def by blast
qed

theorem sum_to_squeezed_witness:
  "[([\<lparr>frame_name = ''N'', frame_dim = -1, frame_size = 3\<rparr>],
      \<lparr>shape = [1, 3], elem = (\<lambda>idx. 1)\<rparr>)] \<noteq> [] \<and>
   sum_to [([\<lparr>frame_name = ''N'', frame_dim = -1, frame_size = 3\<rparr>],
            \<lparr>shape = [1, 3], elem = (\<lambda>idx. 1)\<rparr>)] []
     = Inr (squeeze_leading (sum_keepdims 1 \<lparr>shape = [1, 3], elem = (\<lambda>idx. 1)\<rparr>)) \<and>
   (shape (squeeze_leading (sum_keepdims 1 \<lparr>shape = [1, 3], elem = (\<lambda>idx. 1)\<rparr>)) = [] \<or>
    hd (shape (squeeze_leading (sum_keepdims 1 \<lparr>shape = [1, 3], elem = (\<lambda>idx. 1)\<rparr>))) \<noteq> 1)"
proof -
  let ?self = "[([\<lparr>frame_name = ''N'', frame_dim = -1, frame_size = 3\<rparr>],
                 \<lparr>shape = [1, 3], elem = (\<lambda>idx. 1::real)\<rparr>)]"
  let ?r = "squeeze_leading (sum_keepdims 1 \<lparr>shape = [1, 3], elem = (\<lambda>idx. 1::real)\<rparr>)"
  have h1: "?self \<noteq> []" by simp
  have h2: "sum_to ?self [] = Inr ?r"
    by (simp add: sum_to_def py_index_def ndim_def)
  from sum_to_squeezed[OF h1 h2] have "shape ?r = [] \<or> hd (shape ?r) \<noteq> 1" by blast
  with h1 h2 show ?thesis by blast
qed


text \<open>
  C8 (as amended). For every stack and every tensor whose frame dimensions are negative and
  within the tensor's rank, \<^verbatim>\<open>sum_to(stack)\<close> on the MultiFrameTensor built from the single pair
  \<open>(stack, value)\<close> returns the value with its leading size-1 axes squeezed away; it is
  the value unchanged when the value is a scalar or its first dimension is not 1.
\<close>

theorem sum_to_same_stack:
  assumes "\<forall>f \<in> set stack. frame_dim f < 0 \<and> - int (ndim v) \<le> frame_dim f"
  shows "\<exists>m. MultiFrameTensor_init [(stack, v)] = Inr m \<and>
             sum_to m stack = Inr (squeeze_leading v) \<and>
             (shape v = [] \<or> hd (shape v) \<noteq> 1 \<longrightarrow> sum_to m stack = Inr v)"
proof -
  have i: "MultiFrameTensor_init [(stack, v)] = Inr [(remdups stack, v)]"
    using assms by (simp add: MultiFrameTensor_init_def mft_add1_def list_all_iff)
  have r: "reduce_frames stack (remdups stack) v = Inr v"
    by (rule reduce_frames_in_target) simp
  have s: "sum_to [(remdups stack, v)] stack = Inr (squeeze_leading v)"
    by (simp add: sum_to_def r)
  show ?thesis using i s squeeze_leading_id[of v] by (auto simp: no_leading_one_def)
qed

theorem sum_to_same_stack_witness:
  "\<exists>m. MultiFrameTensor_init
         [([\<lparr>frame_name = ''N'', frame_dim = -1, frame_size = 3\<rparr>],
           \<lparr>shape = [2, 3], elem = (\<lambda>idx. 1)\<rparr>)] = Inr m \<and>
       sum_to m [\<lparr>frame_name = ''N'', frame_dim = -1, frame_size = 3\<rparr>]
         = Inr \<lparr>shape = [2, 3], elem = (\<lambda>idx. 1)\<rparr>"
proof -
  let ?stack = "[\<lparr>frame_name = ''N'', frame_dim = -1, frame_size = 3\<rparr>]"
  let ?v = "\<lparr>shape = [2, 3], elem = (\<lambda>idx. 1::real)\<rparr>"
  have h: "\<forall>f \<in> set ?stack. frame_dim f < 0 \<and> - int (ndim ?v) \<le> frame_dim f"
    by (simp add: ndim_def)
  from sum_to_same_stack[OF h] show ?thesis by auto
qed

text \<open>
  The claim as stated fails for a value with a leading dimension of size 1: a value of
  shape \<open>(1, 3)\<close> under a frame at dimension \<open>-1\<close> comes back with shape \<open>(3)\<close>.
\<close>

theorem sum_to_same_stack_counterexample:
  "frame_dim \<lparr>frame_name = ''N'', frame_dim = -1, frame_size = 3\<rparr> < 0 \<and>
   - int (ndim \<lparr>shape = [1, 3], elem = (\<lambda>idx. 1)\<rparr>)
       \<le> frame_dim \<lparr>frame_name = ''N'', frame_dim = -1, frame_size = 3\<rparr> \<and>
   (\<exists>m. MultiFrameTensor_init
         [([\<lparr>frame_name = ''N'', frame_dim = -1, frame_size = 3\<rparr>],
           \<lparr>shape = [1, 3], elem = (\<lambda>idx. 1)\<rparr>)] = Inr m \<and>
        sum_to m [\<lparr>frame_name = ''N'', frame_dim = -1, frame_size = 3\<rparr>]
          \<noteq> Inr \<lparr>shape = [1, 3], elem = (\<lambda>idx. 1)\<rparr> \<and>
        map_sum id shape (sum_to m [\<lparr>frame_name = ''N'', frame_dim = -1, frame_size = 3\<rparr>])
          = Inr [3])"
  by (simp add: MultiFrameTensor_init_def mft_add1_def ndim_def sum_to_def
      squeeze_leading.simps squeeze0_def)

subsection \<open>The plain trace estimator\<close>


lemma sum_values_sum_list: "sum_values d = sum_list (map snd d)"
proof -
  have "foldl (+) a xs = a + sum_list xs" for a :: real and xs
    by (induction xs arbitrary: a) (auto simp: algebra_simps)
  then show ?thesis by (simp add: sum_values_def)
qed

lemma union_names_props:
  "distinct (union_names m g)" "set (union_names m g) = od_keys m \<union> od_keys g"
  by (auto simp: union_names_def od_keys_def)

lemma sum_values_elbo_terms:
  "sum_values (elbo_terms m g)
     = (\<Sum>name \<in> od_keys m \<union> od_keys g. dict_get m name 0 - dict_get g name 0)"
proof -
  have "sum_values (elbo_terms m g)
          = sum_list (map (\<lambda>name. dict_get m name 0 - dict_get g name 0) (union_names m g))"
    by (simp add: sum_values_sum_list elbo_terms_def comp_def)
  also have "\<dots> = (\<Sum>name \<in> set (union_names m g). dict_get m name 0 - dict_get g name 0)"
    by (rule sum_list_distinct_conv_sum_set[OF union_names_props(1)])
  finally show ?thesis by (simp add: union_names_props(2))
qed

lemma map_of_elbo_terms:
  "map_of (elbo_terms m g) name =
     (if name \<in> od_keys m \<union> od_keys g then Some (dict_get m name 0 - dict_get g name 0) else None)"
proof -
  have "map_of (map (\<lambda>n. (n, f n)) xs) name = (if name \<in> set xs then Some (f name) else None)"
    for f :: "string \<Rightarrow> real" and xs
    by (induction xs) auto
  then show ?thesis unfolding elbo_terms_def by (simp add: union_names_props(2))
qed

lemma elbo_particle_of_spec:
  "(sum_sites_flag \<longrightarrow>
      elbo_particle_of sum_sites_flag m g
        = Scalar (\<Sum>name \<in> od_keys m \<union> od_keys g. dict_get m name 0 - dict_get g name 0)) \<and>
   (\<not> sum_sites_flag \<longrightarrow>
      elbo_particle_of sum_sites_flag m g = PerSite (elbo_terms m g))"
  by (simp add: elbo_particle_of_def sum_values_elbo_terms)

lemma neg_terms_props:
  fixes m g :: "real odict"
  defines "d \<equiv> map (\<lambda>nx. (fst nx, - snd nx)) (elbo_terms m g)"
  shows "distinct (map fst d)" "od_keys d = od_keys m \<union> od_keys g"
    "\<forall>name \<in> od_keys d. map_of d name = Some (- (dict_get m name 0 - dict_get g name 0))"
proof -
  have d: "d = map (\<lambda>name. (name, - (dict_get m name 0 - dict_get g name 0))) (union_names m g)"
    unfolding d_def elbo_terms_def by simp
  have f: "map fst d = union_names m g" unfolding d by (simp add: comp_def)
  show "distinct (map fst d)" unfolding f by (rule union_names_props)
  show k: "od_keys d = od_keys m \<union> od_keys g"
    using f union_names_props(2)[of m g] unfolding od_keys_def by (metis list.set_map)
  have "map_of (map (\<lambda>n. (n, f n)) xs) name = (if name \<in> set xs then Some (f name) else None)"
    for f :: "string \<Rightarrow> real" and xs name
    by (induction xs) auto
  then show "\<forall>name \<in> od_keys d. map_of d name = Some (- (dict_get m name 0 - dict_get g name 0))"
    unfolding k unfolding d by (simp add: union_names_props(2))
qed

text \<open>
  C1. Whenever a single-particle evaluation of the plain trace estimator returns, its value
  is built from the two log-probability maps: the contribution of a site is the model
  log-probability minus the guide log-probability, with 0 for the side that lacks the
  name; there is one contribution for every name in the union of the two key sets; with
  \<open>sum_sites\<close> the value is their sum, otherwise the dictionary of the contributions. For one
  particle the returned loss is the negation: minus the sum, or the dictionary of the
  negated contributions. Log-probabilities are real numbers here.
\<close>

theorem Trace_single_particle_loss:
  assumes "Trace_single_particle_elbo self h param_map rng_key = Inr (elbo, ms, ws)"
  shows "\<exists>model_lp guide_lp guide_trace mutable_params.
           guide_log_probs h (snd (random_split2 h rng_key)) param_map = Inr (guide_lp, guide_trace) \<and>
           Trace_model_step self h param_map (fst (random_split2 h rng_key)) guide_trace
             = Inr (model_lp, mutable_params) \<and>
           (sum_sites self \<longrightarrow>
              elbo = Scalar (\<Sum>name \<in> od_keys model_lp \<union> od_keys guide_lp.
                               dict_get model_lp name 0 - dict_get guide_lp name 0)) \<and>
           (\<not> sum_sites self \<longrightarrow>
              (\<exists>d. elbo = PerSite d \<and> distinct (map fst d) \<and>
                   od_keys d = od_keys model_lp \<union> od_keys guide_lp \<and>
                   (\<forall>name \<in> od_keys d.
                      map_of d name = Some (dict_get model_lp name 0 - dict_get guide_lp name 0)))) \<and>
           (num_particles self = 1 \<longrightarrow>
              (\<exists>r. Trace_loss_with_mutable_state self h param_map rng_key = Inr (r, ws) \<and>
                   (sum_sites self \<longrightarrow>
                      loss r = Scalar (- (\<Sum>name \<in> od_keys model_lp \<union> od_keys guide_lp.
                                           dict_get model_lp name 0 - dict_get guide_lp name 0))) \<and>
                   (\<not> sum_sites self \<longrightarrow>
                      (\<exists>d. loss r = PerSite d \<and> distinct (map fst d) \<and>
                           od_keys d = od_keys model_lp \<union> od_keys guide_lp \<and>
                           (\<forall>name \<in> od_keys d.
                              map_of d name
                                = Some (- (dict_get model_lp name 0 - dict_get guide_lp name 0)))))))"
proof -
  obtain model_seed guide_seed where sp: "random_split2 h rng_key = (model_seed, guide_seed)"
    by (cases "random_split2 h rng_key")
  from assms obtain ep mp where core: "Trace_particle_core self h param_map rng_key = Inr (ep, mp)"
    and ret: "particle_return (num_particles self) ep mp = (elbo, ms, ws)"
    by (auto simp: Trace_single_particle_elbo_def split: sum.splits)
  from core sp obtain guide_lp guide_trace model_lp where
    g: "guide_log_probs h guide_seed param_map = Inr (guide_lp, guide_trace)"
    and m: "Trace_model_step self h param_map model_seed guide_trace = Inr (model_lp, mp)"
    and ep: "ep = elbo_particle_of (sum_sites self) model_lp guide_lp"
    by (auto simp: Trace_particle_core_def split: sum.splits)
  have el: "elbo = ep" using ret by (auto simp: particle_return_def split: if_splits)
  let ?S = "\<Sum>name \<in> od_keys model_lp \<union> od_keys guide_lp.
              dict_get model_lp name 0 - dict_get guide_lp name 0"
  have a: "sum_sites self \<longrightarrow> elbo = Scalar ?S"
    using el ep elbo_particle_of_spec[of "sum_sites self" model_lp guide_lp] by simp
  have t: "\<not> sum_sites self \<longrightarrow> elbo = PerSite (elbo_terms model_lp guide_lp)"
    using el ep elbo_particle_of_spec[of "sum_sites self" model_lp guide_lp] by simp
  have tk: "od_keys (elbo_terms model_lp guide_lp) = od_keys model_lp \<union> od_keys guide_lp"
  proof -
    have "map fst (elbo_terms model_lp guide_lp) = union_names model_lp guide_lp"
      by (simp add: elbo_terms_def comp_def)
    then show ?thesis using union_names_props(2)[of model_lp guide_lp]
      unfolding od_keys_def by (metis list.set_map)
  qed
  have td: "distinct (map fst (elbo_terms model_lp guide_lp))"
    by (simp add: elbo_terms_def comp_def union_names_props(1))
  have b: "\<not> sum_sites self \<longrightarrow>
              (\<exists>d. elbo = PerSite d \<and> distinct (map fst d) \<and>
                   od_keys d = od_keys model_lp \<union> od_keys guide_lp \<and>
                   (\<forall>name \<in> od_keys d.
                      map_of d name = Some (dict_get model_lp name 0 - dict_get guide_lp name 0)))"
    using t tk td by (auto simp: map_of_elbo_terms)
  have c: "num_particles self = 1 \<longrightarrow>
              (\<exists>r. Trace_loss_with_mutable_state self h param_map rng_key = Inr (r, ws) \<and>
                   (sum_sites self \<longrightarrow> loss r = Scalar (- ?S)) \<and>
                   (\<not> sum_sites self \<longrightarrow>
                      (\<exists>d. loss r = PerSite d \<and> distinct (map fst d) \<and>
                           od_keys d = od_keys model_lp \<union> od_keys guide_lp \<and>
                           (\<forall>name \<in> od_keys d.
                              map_of d name
                                = Some (- (dict_get model_lp name 0 - dict_get guide_lp name 0))))))"
  proof
    assume n1: "num_particles self = 1"
    let ?r = "\<lparr>loss = tree_negative elbo, mutable_state = ms\<rparr>"
    have r: "Trace_loss_with_mutable_state self h param_map rng_key = Inr (?r, ws)"
      using n1 assms by (simp add: Trace_loss_with_mutable_state_def)
    have r1: "sum_sites self \<longrightarrow> loss ?r = Scalar (- ?S)"
      using a by (simp add: tree_negative_def)
    have r2: "\<not> sum_sites self \<longrightarrow>
                (\<exists>d. loss ?r = PerSite d \<and> distinct (map fst d) \<and>
                     od_keys d = od_keys model_lp \<union> od_keys guide_lp \<and>
                     (\<forall>name \<in> od_keys d.
                        map_of d name
                          = Some (- (dict_get model_lp name 0 - dict_get guide_lp name 0))))"
    proof
      assume ns: "\<not> sum_sites self"
      with t have "loss ?r = PerSite (map (\<lambda>nx. (fst nx, - snd nx)) (elbo_terms model_lp guide_lp))"
        by (simp add: tree_negative_def)
      with neg_terms_props[of model_lp guide_lp] show "\<exists>d. loss ?r = PerSite d \<and> distinct (map fst d) \<and>
                     od_keys d = od_keys model_lp \<union> od_keys guide_lp \<and>
                     (\<forall>name \<in> od_keys d.
                        map_of d name
                          = Some (- (dict_get model_lp name 0 - dict_get guide_lp name 0)))"
        by blast
    qed
    from r r1 r2 show "\<exists>r. Trace_loss_with_mutable_state self h param_map rng_key = Inr (r, ws) \<and>
                   (sum_sites self \<longrightarrow> loss r = Scalar (- ?S)) \<and>
                   (\<not> sum_sites self \<longrightarrow>
                      (\<exists>d. loss r = PerSite d \<and> distinct (map fst d) \<and>
                           od_keys d = od_keys model_lp \<union> od_keys guide_lp \<and>
                           (\<forall>name \<in> od_keys d.
                              map_of d name
                                = Some (- (dict_get model_lp name 0 - dict_get guide_lp name 0)))))"
      by blast
  qed
  from g m a b c sp show ?thesis by auto
qed


lemma demo_trace_run:
  "Trace_single_particle_elbo (demo_trace_elbo 1 True) demo_handlers [] 0
     = Inr (Scalar (-4), Some [(''m'', scalar 1)], [])"
  by (simp add: Trace_single_particle_elbo_def Trace_particle_core_def demo_trace_elbo_def
      demo_handlers_def Trace_model_step_def check_model_guide_match_spec_def
      demo_model_trace_def demo_guide_trace_def demo_site_def od_keys_def sites_of_type_def
      dict_update_def dict_set_def elbo_particle_of_def elbo_terms_def union_names_def
      dict_get_def sum_values_def particle_return_def)

theorem Trace_single_particle_loss_witness:
  "Trace_single_particle_elbo (demo_trace_elbo 1 True) demo_handlers [] 0
     = Inr (Scalar (-4), Some [(''m'', scalar 1)], []) \<and>
   (\<exists>r. Trace_loss_with_mutable_state (demo_trace_elbo 1 True) demo_handlers [] 0 = Inr (r, []) \<and>
        loss r = Scalar 4)"
proof -
  note T = Trace_single_particle_loss[OF demo_trace_run]
  have n: "num_particles (demo_trace_elbo 1 True) = 1" "sum_sites (demo_trace_elbo 1 True)"
    by (simp_all add: demo_trace_elbo_def)
  from T obtain model_lp guide_lp :: "real odict" where
    a: "sum_sites (demo_trace_elbo 1 True) \<longrightarrow>
          Scalar (- 4) = Scalar (\<Sum>name \<in> od_keys model_lp \<union> od_keys guide_lp.
                               dict_get model_lp name 0 - dict_get guide_lp name 0)" and
    c: "num_particles (demo_trace_elbo 1 True) = 1 \<longrightarrow>
          (\<exists>r. Trace_loss_with_mutable_state (demo_trace_elbo 1 True) demo_handlers [] 0 = Inr (r, []) \<and>
               (sum_sites (demo_trace_elbo 1 True) \<longrightarrow>
                  loss r = Scalar (- (\<Sum>name \<in> od_keys model_lp \<union> od_keys guide_lp.
                                       dict_get model_lp name 0 - dict_get guide_lp name 0))) \<and>
               (\<not> sum_sites (demo_trace_elbo 1 True) \<longrightarrow>
                  (\<exists>d. loss r = PerSite d \<and> distinct (map fst d) \<and>
                       od_keys d = od_keys model_lp \<union> od_keys guide_lp \<and>
                       (\<forall>name \<in> od_keys d.
                          map_of d name
                            = Some (- (dict_get model_lp name 0 - dict_get guide_lp name 0))))))"
    by blast
  let ?S = "\<Sum>name \<in> od_keys model_lp \<union> od_keys guide_lp.
              dict_get model_lp name 0 - dict_get guide_lp name 0"
  from a n have s: "?S = - 4" by simp
  from c n obtain r where
    r: "Trace_loss_with_mutable_state (demo_trace_elbo 1 True) demo_handlers [] 0 = Inr (r, [])"
       "loss r = Scalar (- ?S)" by blast
  from r(2) s have "loss r = Scalar 4" by simp
  with r(1) demo_trace_run show ?thesis by blast
qed

text \<open>
  C5. With the validation of the spec for \<^verbatim>\<open>check_model_guide_match\<close>, in the default mode
  (not the multi-sample guide mode): when the guide trace of a particle has a non-observed
  sample site with no site of that name in the model trace, or the model trace has a
  non-observed sample site with no site of that name in the guide trace, the particle
  raises the structural error, and so does the call, whether that particle is the only one
  or the first of several.
\<close>

theorem Trace_mismatch_raises:
  assumes "\<not> multi_sample_guide self"
    and "check_model_guide_match h = check_model_guide_match_spec"
    and "guide_log_probs h (snd (random_split2 h k)) param_map = Inr (guide_lp, guide_trace)"
    and "model_log_probs h (fst (random_split2 h k)) guide_trace
           (dict_update param_map (sites_of_type ''mutable'' guide_trace)) = Inr (model_lp, model_trace)"
    and "(\<exists>ns \<in> set guide_trace. site_type (snd ns) = ''sample'' \<and> \<not> is_observed (snd ns)
                                \<and> fst ns \<notin> od_keys model_trace)
         \<or> (\<exists>ns \<in> set model_trace. site_type (snd ns) = ''sample'' \<and> \<not> is_observed (snd ns)
                                  \<and> fst ns \<notin> od_keys guide_trace)"
  shows "Trace_single_particle_elbo self h param_map k = Inl StructuralError \<and>
         ((num_particles self = 1 \<and> k = rng_key)
            \<or> (num_particles self \<noteq> 1 \<and> (\<exists>ks. random_split h rng_key (num_particles self) = k # ks))
          \<longrightarrow> Trace_loss_with_mutable_state self h param_map rng_key = Inl StructuralError \<and>
              Trace_loss self h param_map rng_key = Inl StructuralError)"
proof -
  obtain model_seed guide_seed where sp: "random_split2 h k = (model_seed, guide_seed)"
    by (cases "random_split2 h k")
  have chk: "check_model_guide_match h model_trace guide_trace = Some StructuralError"
    using assms(2,5) by (auto simp: check_model_guide_match_spec_def)
  have step: "Trace_model_step self h param_map model_seed guide_trace = Inl StructuralError"
    using assms(1,4) sp chk by (simp add: Trace_model_step_def)
  have p: "Trace_single_particle_elbo self h param_map k = Inl StructuralError"
    using assms(3) sp step by (simp add: Trace_single_particle_elbo_def Trace_particle_core_def)
  have l: "Trace_loss_with_mutable_state self h param_map rng_key = Inl StructuralError"
    if "(num_particles self = 1 \<and> k = rng_key)
          \<or> (num_particles self \<noteq> 1 \<and> (\<exists>ks. random_split h rng_key (num_particles self) = k # ks))"
    using that p by (auto simp: Trace_loss_with_mutable_state_def)
  then have "Trace_loss self h param_map rng_key = Inl StructuralError"
    if "(num_particles self = 1 \<and> k = rng_key)
          \<or> (num_particles self \<noteq> 1 \<and> (\<exists>ks. random_split h rng_key (num_particles self) = k # ks))"
    using that by (simp add: Trace_loss_def)
  with p l show ?thesis by blast
qed

theorem Trace_mismatch_raises_witness:
  "Trace_single_particle_elbo (demo_trace_elbo 1 True) demo_handlers_extra [] 0 = Inl StructuralError \<and>
   Trace_loss_with_mutable_state (demo_trace_elbo 1 True) demo_handlers_extra [] 0 = Inl StructuralError \<and>
   Trace_loss (demo_trace_elbo 1 True) demo_handlers_extra [] 0 = Inl StructuralError"
proof -
  let ?self = "demo_trace_elbo 1 True"
  let ?h = "demo_handlers_extra"
  have h1: "\<not> multi_sample_guide ?self" by (simp add: demo_trace_elbo_def)
  have h2: "check_model_guide_match ?h = check_model_guide_match_spec"
    by (simp add: demo_handlers_extra_def demo_handlers_def)
  have h3: "guide_log_probs ?h (snd (random_split2 ?h 0)) []
              = Inr ([(''z'', -1), (''w'', -4)], demo_guide_trace_extra)"
    by (simp add: demo_handlers_extra_def demo_handlers_def)
  have h4: "model_log_probs ?h (fst (random_split2 ?h 0)) demo_guide_trace_extra
              (dict_update [] (sites_of_type ''mutable'' demo_guide_trace_extra))
              = Inr ([(''z'', -2), (''x'', -3)], demo_model_trace)"
    by (simp add: demo_handlers_extra_def demo_handlers_def)
  have h5: "(\<exists>ns \<in> set demo_guide_trace_extra. site_type (snd ns) = ''sample'' \<and> \<not> is_observed (snd ns)
                                \<and> fst ns \<notin> od_keys demo_model_trace)
         \<or> (\<exists>ns \<in> set demo_model_trace. site_type (snd ns) = ''sample'' \<and> \<not> is_observed (snd ns)
                                  \<and> fst ns \<notin> od_keys demo_guide_trace_extra)"
    by (simp add: demo_guide_trace_extra_def demo_guide_trace_def demo_model_trace_def
        demo_site_def od_keys_def)
  have n: "num_particles ?self = 1" by (simp add: demo_trace_elbo_def)
  from Trace_mismatch_raises[OF h1 h2 h3 h4 h5, of 0] n show ?thesis by simp
qed

subsection \<open>The dependency-tracking estimator\<close>









subsection \<open>The mean-field estimator\<close>






lemma model_site_term_cases:
  "(is_observed ms \<longrightarrow> model_site_term h gt name ms = Inr (get_log_prob_sum h ms)) \<and>
   (\<not> is_observed ms \<and> map_of gt name = Some gs \<and> kl_divergence h (fn gs) (fn ms) = Inr kl \<longrightarrow>
      model_site_term h gt name ms = Inr (- jnp_sum (scale_and_mask h kl (scale gs)))) \<and>
   (\<not> is_observed ms \<and> map_of gt name = Some gs
      \<and> kl_divergence h (fn gs) (fn ms) = Inl NotImplementedError \<longrightarrow>
      model_site_term h gt name ms = Inr (get_log_prob_sum h ms - get_log_prob_sum h gs))"
  by (simp add: model_site_term_def)






subsection \<open>Mutable state\<close>

lemma map_particles_results:
  "map_particles f ks = Inr rs \<Longrightarrow> list_all2 (\<lambda>k r. f k = Inr r) ks rs"
proof (induction ks arbitrary: rs)
  case Nil
  then show ?case by simp
next
  case (Cons k ks)
  from Cons.prems obtain r rs' where "f k = Inr r" "map_particles f ks = Inr rs'" "rs = r # rs'"
    by (auto split: sum.splits)
  with Cons.IH[of rs'] show ?case by simp
qed

lemma map_particles_total:
  "\<forall>k \<in> set ks. \<exists>r. f k = Inr r \<Longrightarrow> \<exists>rs. map_particles f ks = Inr rs"
proof (induction ks)
  case Nil
  then show ?case by simp
next
  case (Cons k ks)
  then obtain r rs where "f k = Inr r" "map_particles f ks = Inr rs" by auto
  then show ?case by simp
qed

lemma stack_mutable_state_None:
  "\<forall>m \<in> set ms. m = None \<Longrightarrow> stack_mutable_state ms = None"
proof -
  assume "\<forall>m \<in> set ms. m = None"
  then have "filter (\<lambda>m. m \<noteq> None) ms = []" by (simp add: filter_empty_conv)
  then show ?thesis by (simp add: stack_mutable_state_def)
qed

lemma particle_return_many:
  assumes "n \<noteq> 1" "particle_return n ep mp = (elbo, ms, ws)"
  shows "ms = None" "mp \<noteq> [] \<Longrightarrow> MutableStateIgnored \<in> set ws"
  using assms by (auto simp: particle_return_def split: if_splits)

text \<open>What the multi-particle branch of either estimator returns, for any particle function
  whose particles never return a mutable state.\<close>

lemma many_particles_mutable_state:
  assumes "map_particles f ks = Inr rs" "\<forall>k \<in> set ks. \<forall>r. f k = Inr r \<longrightarrow> fst (snd r) = None"
  shows "stack_mutable_state (map (\<lambda>r. fst (snd r)) rs) = None"
proof (rule stack_mutable_state_None, rule ballI)
  fix m assume "m \<in> set (map (\<lambda>r. fst (snd r)) rs)"
  then obtain i where i: "i < length rs" "m = fst (snd (rs ! i))"
    by (auto simp: in_set_conv_nth)
  from map_particles_results[OF assms(1)] i have "f (ks ! i) = Inr (rs ! i)" "i < length ks"
    by (auto simp: list_all2_conv_all_nth)
  with assms(2) i show "m = None" by (metis nth_mem)
qed

lemma many_particles_warning:
  assumes "map_particles f ks = Inr rs" "k \<in> set ks" "f k = Inr r" "w \<in> set (snd (snd r))"
  shows "w \<in> set (concat (map (\<lambda>r. snd (snd r)) rs))"
proof -
  from assms(2) obtain i where i: "i < length ks" "ks ! i = k" by (auto simp: in_set_conv_nth)
  from map_particles_results[OF assms(1)] i have "f k = Inr (rs ! i)" "i < length rs"
    by (auto simp: list_all2_conv_all_nth)
  with assms(3,4) have "rs ! i \<in> set rs" "w \<in> set (snd (snd (rs ! i)))" by auto
  then show ?thesis by auto
qed

lemma Trace_particle_total:
  "Trace_particle_core self h pm k = Inr (ep, mp) \<Longrightarrow>
     \<exists>r. Trace_single_particle_elbo self h pm k = Inr r"
  by (cases "particle_return (num_particles self) ep mp")
     (simp add: Trace_single_particle_elbo_def)

lemma MeanField_particle_total:
  "MeanField_particle_core self h pm k = Inr (ep, mp, w0) \<Longrightarrow>
     \<exists>r. MeanField_single_particle_elbo self h pm k = Inr r"
  by (cases "particle_return (num_particles self) ep mp")
     (simp add: MeanField_single_particle_elbo_def)

lemma Trace_particle_many:
  assumes "num_particles self \<noteq> 1" "Trace_single_particle_elbo self h pm k = Inr r"
  shows "fst (snd r) = None"
    and "Trace_particle_core self h pm k = Inr (ep, mp) \<Longrightarrow> mp \<noteq> [] \<Longrightarrow>
           MutableStateIgnored \<in> set (snd (snd r))"
proof -
  from assms(2) obtain ep' mp' where c: "Trace_particle_core self h pm k = Inr (ep', mp')"
    and r: "particle_return (num_particles self) ep' mp' = r"
    by (auto simp: Trace_single_particle_elbo_def split: sum.splits)
  obtain elbo ms ws where rr: "r = (elbo, ms, ws)" by (cases r)
  from particle_return_many[OF assms(1) r[unfolded rr]] rr c
  show "fst (snd r) = None"
    and "Trace_particle_core self h pm k = Inr (ep, mp) \<Longrightarrow> mp \<noteq> [] \<Longrightarrow>
           MutableStateIgnored \<in> set (snd (snd r))"
    by auto
qed

lemma MeanField_particle_many:
  assumes "num_particles self \<noteq> 1" "MeanField_single_particle_elbo self h pm k = Inr r"
  shows "fst (snd r) = None"
    and "MeanField_particle_core self h pm k = Inr (ep, mp, w0) \<Longrightarrow> mp \<noteq> [] \<Longrightarrow>
           MutableStateIgnored \<in> set (snd (snd r))"
proof -
  from assms(2) obtain ep' mp' w' elbo ms ws where
    c: "MeanField_particle_core self h pm k = Inr (ep', mp', w')"
    and p: "particle_return (num_particles self) ep' mp' = (elbo, ms, ws)"
    and r: "r = (elbo, ms, w' @ ws)"
    by (auto simp: MeanField_single_particle_elbo_def split: sum.splits prod.splits)
  from particle_return_many[OF assms(1) p] r c
  show "fst (snd r) = None"
    and "MeanField_particle_core self h pm k = Inr (ep, mp, w0) \<Longrightarrow> mp \<noteq> [] \<Longrightarrow>
           MutableStateIgnored \<in> set (snd (snd r))"
    by auto
qed

text \<open>
  C7. In both estimators with mutable state, let \<open>mp\<close> be the mutable-site values a particle
  has collected, not empty. With \<open>num_particles = 1\<close> the call returns \<open>mp\<close> as its
  \<open>mutable_state\<close>, with the negated value of the particle as its loss. With
  \<open>num_particles > 1\<close> whatever the call returns has \<open>mutable_state = None\<close>; and when every
  particle's computation succeeds the call returns a loss, with \<open>mutable_state = None\<close>, and
  the warning that mutable state is ignored is among its warnings as soon as one particle
  has collected mutable-site values.
\<close>

theorem mutable_state_policy:
  "(num_particles self = 1 \<and> Trace_particle_core self h pm rng_key = Inr (ep, mp) \<and> mp \<noteq> [] \<longrightarrow>
      Trace_loss_with_mutable_state self h pm rng_key
        = Inr (\<lparr>loss = tree_negative ep, mutable_state = Some mp\<rparr>, [])) \<and>
   (num_particles self > 1 \<and> Trace_loss_with_mutable_state self h pm rng_key = Inr (r, ws) \<longrightarrow>
      mutable_state r = None) \<and>
   (num_particles self > 1 \<and>
    (\<forall>k \<in> set (random_split h rng_key (num_particles self)).
        \<exists>ep' mp'. Trace_particle_core self h pm k = Inr (ep', mp')) \<longrightarrow>
      (\<exists>r' ws'. Trace_loss_with_mutable_state self h pm rng_key = Inr (r', ws') \<and>
          mutable_state r' = None \<and>
          ((\<exists>k \<in> set (random_split h rng_key (num_particles self)).
              \<exists>ep' mp'. Trace_particle_core self h pm k = Inr (ep', mp') \<and> mp' \<noteq> []) \<longrightarrow>
           MutableStateIgnored \<in> set ws'))) \<and>
   (num_particles selfm = 1 \<and> MeanField_particle_core selfm h pm rng_key = Inr (epm, mpm, w0)
      \<and> mpm \<noteq> [] \<longrightarrow>
      MeanField_loss_with_mutable_state selfm h pm rng_key
        = Inr (\<lparr>loss = tree_negative epm, mutable_state = Some mpm\<rparr>, w0)) \<and>
   (num_particles selfm > 1 \<and> MeanField_loss_with_mutable_state selfm h pm rng_key = Inr (rm, wsm) \<longrightarrow>
      mutable_state rm = None) \<and>
   (num_particles selfm > 1 \<and>
    (\<forall>k \<in> set (random_split h rng_key (num_particles selfm)).
        \<exists>ep' mp' w'. MeanField_particle_core selfm h pm k = Inr (ep', mp', w')) \<longrightarrow>
      (\<exists>r' ws'. MeanField_loss_with_mutable_state selfm h pm rng_key = Inr (r', ws') \<and>
          mutable_state r' = None \<and>
          ((\<exists>k \<in> set (random_split h rng_key (num_particles selfm)).
              \<exists>ep' mp' w'. MeanField_particle_core selfm h pm k = Inr (ep', mp', w') \<and> mp' \<noteq> []) \<longrightarrow>
           MutableStateIgnored \<in> set ws')))"
proof (intro conjI impI)
  assume a: "num_particles self = 1 \<and> Trace_particle_core self h pm rng_key = Inr (ep, mp) \<and> mp \<noteq> []"
  then show "Trace_loss_with_mutable_state self h pm rng_key
        = Inr (\<lparr>loss = tree_negative ep, mutable_state = Some mp\<rparr>, [])"
    by (simp add: Trace_loss_with_mutable_state_def Trace_single_particle_elbo_def
        particle_return_def)
next
  assume a: "num_particles self > 1 \<and> Trace_loss_with_mutable_state self h pm rng_key = Inr (r, ws)"
  then have n: "num_particles self \<noteq> 1" by simp
  from a n obtain rs where
    m: "map_particles (Trace_single_particle_elbo self h pm)
          (random_split h rng_key (num_particles self)) = Inr rs"
    and r: "mutable_state r = stack_mutable_state (map (\<lambda>r. fst (snd r)) rs)"
    by (auto simp: Trace_loss_with_mutable_state_def split: sum.splits)
  have pn: "\<forall>k \<in> set (random_split h rng_key (num_particles self)).
              \<forall>r. Trace_single_particle_elbo self h pm k = Inr r \<longrightarrow> fst (snd r) = None"
    using Trace_particle_many(1)[OF n] by blast
  from many_particles_mutable_state[OF m pn] r
  show "mutable_state r = None" by simp
next
  let ?ks = "random_split h rng_key (num_particles self)"
  let ?f = "Trace_single_particle_elbo self h pm"
  assume a: "num_particles self > 1 \<and>
    (\<forall>k \<in> set ?ks. \<exists>ep' mp'. Trace_particle_core self h pm k = Inr (ep', mp'))"
  then have n: "num_particles self \<noteq> 1" by simp
  from a have "\<forall>k \<in> set ?ks. \<exists>r. ?f k = Inr r"
    using Trace_particle_total by blast
  from map_particles_total[OF this] obtain rs where m: "map_particles ?f ?ks = Inr rs" by blast
  let ?r = "\<lparr>loss = tree_neg_mean (map fst rs),
             mutable_state = stack_mutable_state (map (\<lambda>r. fst (snd r)) rs)\<rparr>"
  let ?ws = "concat (map (\<lambda>r. snd (snd r)) rs)"
  have res: "Trace_loss_with_mutable_state self h pm rng_key = Inr (?r, ?ws)"
    using n m by (simp add: Trace_loss_with_mutable_state_def)
  have pn: "\<forall>k \<in> set ?ks. \<forall>r. ?f k = Inr r \<longrightarrow> fst (snd r) = None"
    using Trace_particle_many(1)[OF n] by blast
  have none: "mutable_state ?r = None"
    using many_particles_mutable_state[OF m pn] by simp
  have warn: "MutableStateIgnored \<in> set ?ws"
    if "\<exists>k \<in> set ?ks. \<exists>ep' mp'. Trace_particle_core self h pm k = Inr (ep', mp') \<and> mp' \<noteq> []"
  proof -
    from that obtain k ep' mp' where k: "k \<in> set ?ks"
      "Trace_particle_core self h pm k = Inr (ep', mp')" "mp' \<noteq> []" by blast
    then obtain r0 where r0: "?f k = Inr r0" using Trace_particle_total by blast
    from Trace_particle_many(2)[OF n r0 k(2,3)] many_particles_warning[OF m k(1) r0]
    show ?thesis by blast
  qed
  from res none warn
  show "\<exists>r' ws'. Trace_loss_with_mutable_state self h pm rng_key = Inr (r', ws') \<and>
          mutable_state r' = None \<and>
          ((\<exists>k \<in> set ?ks. \<exists>ep' mp'. Trace_particle_core self h pm k = Inr (ep', mp') \<and> mp' \<noteq> []) \<longrightarrow>
           MutableStateIgnored \<in> set ws')"
    by blast
next
  assume a: "num_particles selfm = 1 \<and> MeanField_particle_core selfm h pm rng_key = Inr (epm, mpm, w0)
      \<and> mpm \<noteq> []"
  then show "MeanField_loss_with_mutable_state selfm h pm rng_key
        = Inr (\<lparr>loss = tree_negative epm, mutable_state = Some mpm\<rparr>, w0)"
    by (simp add: MeanField_loss_with_mutable_state_def MeanField_single_particle_elbo_def
        particle_return_def)
next
  assume a: "num_particles selfm > 1 \<and> MeanField_loss_with_mutable_state selfm h pm rng_key = Inr (rm, wsm)"
  then have n: "num_particles selfm \<noteq> 1" by simp
  from a n obtain rs where
    m: "map_particles (MeanField_single_particle_elbo selfm h pm)
          (random_split h rng_key (num_particles selfm)) = Inr rs"
    and r: "mutable_state rm = stack_mutable_state (map (\<lambda>r. fst (snd r)) rs)"
    by (auto simp: MeanField_loss_with_mutable_state_def split: sum.splits)
  have pn: "\<forall>k \<in> set (random_split h rng_key (num_particles selfm)).
              \<forall>r. MeanField_single_particle_elbo selfm h pm k = Inr r \<longrightarrow> fst (snd r) = None"
    using MeanField_particle_many(1)[OF n] by blast
  from many_particles_mutable_state[OF m pn] r
  show "mutable_state rm = None" by simp
next
  let ?ks = "random_split h rng_key (num_particles selfm)"
  let ?f = "MeanField_single_particle_elbo selfm h pm"
  assume a: "num_particles selfm > 1 \<and>
    (\<forall>k \<in> set ?ks. \<exists>ep' mp' w'. MeanField_particle_core selfm h pm k = Inr (ep', mp', w'))"
  then have n: "num_particles selfm \<noteq> 1" by simp
  have "\<forall>k \<in> set ?ks. \<exists>r. ?f k = Inr r"
  proof
    fix k assume "k \<in> set ?ks"
    with a obtain ep' mp' w' where "MeanField_particle_core selfm h pm k = Inr (ep', mp', w')"
      by blast
    then show "\<exists>r. ?f k = Inr r" by (rule MeanField_particle_total)
  qed
  from map_particles_total[OF this] obtain rs where m: "map_particles ?f ?ks = Inr rs" by blast
  let ?r = "\<lparr>loss = tree_neg_mean (map fst rs),
             mutable_state = stack_mutable_state (map (\<lambda>r. fst (snd r)) rs)\<rparr>"
  let ?ws = "concat (map (\<lambda>r. snd (snd r)) rs)"
  have res: "MeanField_loss_with_mutable_state selfm h pm rng_key = Inr (?r, ?ws)"
    using n m by (simp add: MeanField_loss_with_mutable_state_def)
  have pn: "\<forall>k \<in> set ?ks. \<forall>r. ?f k = Inr r \<longrightarrow> fst (snd r) = None"
    using MeanField_particle_many(1)[OF n] by blast
  have none: "mutable_state ?r = None"
    using many_particles_mutable_state[OF m pn] by simp
  have warn: "MutableStateIgnored \<in> set ?ws"
    if "\<exists>k \<in> set ?ks. \<exists>ep' mp' w'. MeanField_particle_core selfm h pm k = Inr (ep', mp', w') \<and> mp' \<noteq> []"
  proof -
    from that obtain k ep' mp' w' where k: "k \<in> set ?ks"
      "MeanField_particle_core selfm h pm k = Inr (ep', mp', w')" "mp' \<noteq> []" by blast
    then obtain r0 where r0: "?f k = Inr r0" using MeanField_particle_total by blast
    from MeanField_particle_many(2)[OF n r0 k(2,3)] many_particles_warning[OF m k(1) r0]
    show ?thesis by blast
  qed
  from res none warn
  show "\<exists>r' ws'. MeanField_loss_with_mutable_state selfm h pm rng_key = Inr (r', ws') \<and>
          mutable_state r' = None \<and>
          ((\<exists>k \<in> set ?ks. \<exists>ep' mp' w'. MeanField_particle_core selfm h pm k = Inr (ep', mp', w') \<and> mp' \<noteq> []) \<longrightarrow>
           MutableStateIgnored \<in> set ws')"
    by blast
qed


lemma demo_trace_core:
  "Trace_particle_core (demo_trace_elbo n True) demo_handlers [] k
     = Inr (Scalar (-4), [(''m'', scalar 1)])"
  by (simp add: Trace_particle_core_def demo_trace_elbo_def
      demo_handlers_def Trace_model_step_def check_model_guide_match_spec_def
      demo_model_trace_def demo_guide_trace_def demo_site_def od_keys_def sites_of_type_def
      dict_update_def dict_set_def elbo_particle_of_def elbo_terms_def union_names_def
      dict_get_def sum_values_def)

lemma demo_mf_core:
  "MeanField_particle_core (demo_meanfield_elbo n) demo_handlers_mf [] k
     = Inr (PerSite [(''z'', -5), (''y'', 1), (''x'', -2)], [(''m'', scalar 1)], [])"
  by (simp add: MeanField_particle_core_def demo_meanfield_elbo_def demo_handlers_mf_def
      demo_handlers_def check_model_guide_match_spec_def demo_model_trace_mf_def
      demo_guide_trace_mf_def demo_site_def od_keys_def sites_of_type_def dict_update_def
      dict_set_def check_mean_field_requirement_def model_site_term_def get_log_prob_sum_def
      jnp_sum_def scalar_def)

lemma demo_keys_nonempty:
  "random_split demo_handlers k 2 \<noteq> []" "random_split demo_handlers_mf k 2 \<noteq> []"
  by (simp_all add: demo_handlers_mf_def demo_handlers_def)

theorem mutable_state_policy_witness:
  "Trace_loss_with_mutable_state (demo_trace_elbo 1 True) demo_handlers [] 0
     = Inr (\<lparr>loss = tree_negative (Scalar (-4)), mutable_state = Some [(''m'', scalar 1)]\<rparr>, []) \<and>
   (\<exists>r ws. Trace_loss_with_mutable_state (demo_trace_elbo 2 True) demo_handlers [] 0 = Inr (r, ws) \<and>
        mutable_state r = None \<and> MutableStateIgnored \<in> set ws) \<and>
   MeanField_loss_with_mutable_state (demo_meanfield_elbo 1) demo_handlers_mf [] 0
     = Inr (\<lparr>loss = tree_negative (PerSite [(''z'', -5), (''y'', 1), (''x'', -2)]),
            mutable_state = Some [(''m'', scalar 1)]\<rparr>, []) \<and>
   (\<exists>r ws. MeanField_loss_with_mutable_state (demo_meanfield_elbo 2) demo_handlers_mf [] 0 = Inr (r, ws) \<and>
        mutable_state r = None \<and> MutableStateIgnored \<in> set ws)"
proof -
  have n1: "num_particles (demo_trace_elbo 1 True) = 1" "num_particles (demo_meanfield_elbo 1) = 1"
    by (simp_all add: demo_trace_elbo_def demo_meanfield_elbo_def)
  have n2: "num_particles (demo_trace_elbo 2 True) = 2" "num_particles (demo_meanfield_elbo 2) = 2"
    by (simp_all add: demo_trace_elbo_def demo_meanfield_elbo_def)
  have ne: "[(''m'', scalar 1)] \<noteq> []" by simp
  note one = mutable_state_policy[of "demo_trace_elbo 1 True" demo_handlers "[]" 0
      "Scalar (-4)" "[(''m'', scalar 1)]" _ _ "demo_meanfield_elbo 1"]
  have a: "Trace_loss_with_mutable_state (demo_trace_elbo 1 True) demo_handlers [] 0
     = Inr (\<lparr>loss = tree_negative (Scalar (-4)), mutable_state = Some [(''m'', scalar 1)]\<rparr>, [])"
    using one n1(1) demo_trace_core[of 1 0] ne by blast
  note two = mutable_state_policy[of "demo_trace_elbo 2 True" demo_handlers "[]" 0
      _ _ _ _ "demo_meanfield_elbo 2"]
  have all: "\<forall>k \<in> set (random_split demo_handlers 0 (num_particles (demo_trace_elbo 2 True))).
               \<exists>ep' mp'. Trace_particle_core (demo_trace_elbo 2 True) demo_handlers [] k = Inr (ep', mp')"
    using demo_trace_core[of 2] by blast
  have some: "\<exists>k \<in> set (random_split demo_handlers 0 (num_particles (demo_trace_elbo 2 True))).
               \<exists>ep' mp'. Trace_particle_core (demo_trace_elbo 2 True) demo_handlers [] k = Inr (ep', mp')
                  \<and> mp' \<noteq> []"
  proof -
    from demo_keys_nonempty(1)[of 0] n2(1)
    obtain k where "k \<in> set (random_split demo_handlers 0 (num_particles (demo_trace_elbo 2 True)))"
      by (metis last_in_set)
    with demo_trace_core[of 2 k] ne show ?thesis by blast
  qed
  have gt: "num_particles (demo_trace_elbo 2 True) > 1" using n2 by simp
  have b: "\<exists>r ws. Trace_loss_with_mutable_state (demo_trace_elbo 2 True) demo_handlers [] 0 = Inr (r, ws) \<and>
        mutable_state r = None \<and> MutableStateIgnored \<in> set ws"
    using two gt all some by blast
  have c: "MeanField_loss_with_mutable_state (demo_meanfield_elbo 1) demo_handlers_mf [] 0
     = Inr (\<lparr>loss = tree_negative (PerSite [(''z'', -5), (''y'', 1), (''x'', -2)]),
            mutable_state = Some [(''m'', scalar 1)]\<rparr>, [])"
    using mutable_state_policy[of "demo_trace_elbo 1 True" demo_handlers_mf "[]" 0
      _ _ _ _ "demo_meanfield_elbo 1" "PerSite [(''z'', -5), (''y'', 1), (''x'', -2)]"
      "[(''m'', scalar 1)]" "[]"]
      n1(2) demo_mf_core[of 1 0] ne by blast
  note twom = mutable_state_policy[of "demo_trace_elbo 2 True" demo_handlers_mf "[]" 0
      _ _ _ _ "demo_meanfield_elbo 2"]
  have allm: "\<forall>k \<in> set (random_split demo_handlers_mf 0 (num_particles (demo_meanfield_elbo 2))).
               \<exists>ep' mp' w'. MeanField_particle_core (demo_meanfield_elbo 2) demo_handlers_mf [] k
                  = Inr (ep', mp', w')"
    using demo_mf_core[of 2] by blast
  have somem: "\<exists>k \<in> set (random_split demo_handlers_mf 0 (num_particles (demo_meanfield_elbo 2))).
               \<exists>ep' mp' w'. MeanField_particle_core (demo_meanfield_elbo 2) demo_handlers_mf [] k
                  = Inr (ep', mp', w') \<and> mp' \<noteq> []"
  proof -
    from demo_keys_nonempty(2)[of 0] n2(2)
    obtain k where "k \<in> set (random_split demo_handlers_mf 0 (num_particles (demo_meanfield_elbo 2)))"
      by (metis last_in_set)
    with demo_mf_core[of 2 k] ne show ?thesis by blast
  qed
  have gtm: "num_particles (demo_meanfield_elbo 2) > 1" using n2 by simp
  have d: "\<exists>r ws. MeanField_loss_with_mutable_state (demo_meanfield_elbo 2) demo_handlers_mf [] 0 = Inr (r, ws) \<and>
        mutable_state r = None \<and> MutableStateIgnored \<in> set ws"
    using twom gtm allm somem by blast
  from a b c d show ?thesis by blast
qed

end
